theory Spec2Isabelle
  imports Complex_Main
begin

section \<open>The board: class \<open>Connect4\<close>\<close>

text \<open>
  Cells are the one-character Python strings \<open>' '\<close>, \<open>'X'\<close> and \<open>'O'\<close>; the board is a
  list of rows, row 0 on top. A player is whatever string the caller passes.
\<close>

record connect4 =
  board :: "string list list"
  player :: string

datatype py_error = IndexError | ValueError | ZeroDivisionError

text \<open>\<open>Connect4.__init__\<close>: six rows of seven blanks, \<open>'X'\<close> to move.\<close>

definition init_state :: connect4 where
  "init_state = \<lparr>board = replicate 6 (replicate 7 '' ''), player = ''X''\<rparr>"

text \<open>
  The shape \<open>__init__\<close> builds. \<open>copy\<close> and \<open>make_move\<close> keep it, and the three queries
  below read the board at constant positions inside it, so on such a board no read of
  theirs is out of range.
\<close>

definition wf_board :: "string list list \<Rightarrow> bool" where
  "wf_board b \<longleftrightarrow> length b = 6 \<and> list_all (\<lambda>r. length r = 7) b"

text \<open>\<open>copy\<close>: a new object whose rows are fresh copies; as a value, the same state.\<close>

definition copy :: "connect4 \<Rightarrow> connect4" where
  "copy s = \<lparr>board = map (\<lambda>row. row) (board s), player = player s\<rparr>"

text \<open>\<open>get_possible_moves\<close>: the columns whose top cell is blank, ascending.\<close>

definition get_possible_moves :: "connect4 \<Rightarrow> nat list" where
  "get_possible_moves s = filter (\<lambda>col. board s ! 0 ! col = '' '') [0..<7]"

text \<open>
  Python's list indexing \<open>xs[i]\<close> for a list of length \<open>n\<close>: a negative index counts from
  the end, anything outside \<open>-n .. n-1\<close> raises \<open>IndexError\<close>.
\<close>

definition py_index :: "nat \<Rightarrow> int \<Rightarrow> py_error + nat" where
  "py_index n i =
     (if 0 \<le> i \<and> i < int n then Inr (nat i)
      else if - int n \<le> i \<and> i < 0 then Inr (nat (i + int n))
      else Inl IndexError)"

text \<open>The expression \<open>'O' if player == 'X' else 'X'\<close>.\<close>

definition other :: "string \<Rightarrow> string" where
  "other p = (if p = ''X'' then ''O'' else ''X'')"

text \<open>
  The loop of \<open>make_move\<close> over the rows it is given (\<open>5, 4, .., 0\<close>): read
  \<open>board[row][col]\<close>; at the first blank write the mark and stop. When no row has a
  blank the board comes back as it was.
\<close>

fun drop_piece :: "string list list \<Rightarrow> nat list \<Rightarrow> int \<Rightarrow> string \<Rightarrow> py_error + string list list" where
  "drop_piece b [] col p = Inr b"
| "drop_piece b (row # rows) col p =
     (case py_index (length b) (int row) of
        Inl e \<Rightarrow> Inl e
      | Inr r \<Rightarrow>
          (case py_index (length (b ! r)) col of
             Inl e \<Rightarrow> Inl e
           | Inr c \<Rightarrow>
               if b ! r ! c = '' '' then Inr (b[r := (b ! r)[c := p]])
               else drop_piece b rows col p))"

definition make_move :: "connect4 \<Rightarrow> int \<Rightarrow> string \<Rightarrow> py_error + connect4" where
  "make_move s col p =
     (let new_board = copy s in
      case drop_piece (board new_board) (rev [0..<6]) col p of
        Inl e \<Rightarrow> Inl e
      | Inr b \<Rightarrow> Inr (new_board\<lparr>board := b, player := other p\<rparr>))"

text \<open>
  The four window tests shared by \<open>is_terminal\<close> and \<open>evaluate\<close>: the cell at
  \<open>(row, col)\<close> is not blank and the four cells starting there, going right, down,
  down-right or down-left, all equal it.
\<close>

definition horizontal :: "string list list \<Rightarrow> nat \<times> nat \<Rightarrow> bool" where
  "horizontal b = (\<lambda>(row, col). b ! row ! col \<noteq> '' '' \<and>
     list_all (\<lambda>i. b ! row ! (col + i) = b ! row ! col) [0..<4])"

definition vertical :: "string list list \<Rightarrow> nat \<times> nat \<Rightarrow> bool" where
  "vertical b = (\<lambda>(row, col). b ! row ! col \<noteq> '' '' \<and>
     list_all (\<lambda>i. b ! (row + i) ! col = b ! row ! col) [0..<4])"

definition diag_pos :: "string list list \<Rightarrow> nat \<times> nat \<Rightarrow> bool" where
  "diag_pos b = (\<lambda>(row, col). b ! row ! col \<noteq> '' '' \<and>
     list_all (\<lambda>i. b ! (row + i) ! (col + i) = b ! row ! col) [0..<4])"

definition diag_neg :: "string list list \<Rightarrow> nat \<times> nat \<Rightarrow> bool" where
  "diag_neg b = (\<lambda>(row, col). b ! row ! col \<noteq> '' '' \<and>
     list_all (\<lambda>i. b ! (row + i) ! (col - i) = b ! row ! col) [0..<4])"

text \<open>
  A nested loop \<open>for row in rs: for col in cs: if test: return ...\<close> visits the pairs
  of \<open>List.product rs cs\<close> in order and stops at the first hit.
\<close>

definition is_terminal :: "connect4 \<Rightarrow> bool" where
  "is_terminal s =
     (let b = board s in
      if list_ex (horizontal b) (List.product [0..<6] [0..<4]) then True
      else if list_ex (vertical b) (List.product [0..<3] [0..<7]) then True
      else if list_ex (diag_pos b) (List.product [0..<3] [0..<4]) then True
      else if list_ex (diag_neg b) (List.product [0..<3] [3..<7]) then True
      else if list_all (\<lambda>col. b ! 0 ! col \<noteq> '' '') [0..<7] then True
      else False)"

definition win_value :: "string list list \<Rightarrow> nat \<times> nat \<Rightarrow> int" where
  "win_value b = (\<lambda>(row, col). if b ! row ! col = ''X'' then 1 else - 1)"

definition evaluate :: "connect4 \<Rightarrow> int" where
  "evaluate s =
     (let b = board s in
      case find (horizontal b) (List.product [0..<6] [0..<4]) of
        Some w \<Rightarrow> win_value b w
      | None \<Rightarrow>
      (case find (vertical b) (List.product [0..<3] [0..<7]) of
        Some w \<Rightarrow> win_value b w
      | None \<Rightarrow>
      (case find (diag_pos b) (List.product [0..<3] [0..<4]) of
        Some w \<Rightarrow> win_value b w
      | None \<Rightarrow>
      (case find (diag_neg b) (List.product [0..<3] [3..<7]) of
        Some w \<Rightarrow> win_value b w
      | None \<Rightarrow> 0))))"

subsection \<open>\<open>copy\<close> and \<open>make_move\<close> on objects\<close>

text \<open>
  The same two methods with the objects they allocate and write to. A row of a board is a
  Python list object; the store holds the row objects by address, and a \<open>Connect4\<close>
  object holds the addresses of its six rows (its outer list is built once and never
  written to afterwards) and its \<open>player\<close>. \<open>copy\<close> allocates one new row object per
  row (\<open>row[:]\<close>); \<open>make_move\<close> writes into a row of the copy.
\<close>

type_synonym store = "string list list"

record connect4_obj =
  board_rows :: "nat list"
  obj_player :: string

text \<open>The state an object of the store stands for, and the objects whose rows exist.\<close>

definition view :: "store \<Rightarrow> connect4_obj \<Rightarrow> connect4" where
  "view st ob = \<lparr>board = map (\<lambda>a. st ! a) (board_rows ob), player = obj_player ob\<rparr>"

definition valid_obj :: "store \<Rightarrow> connect4_obj \<Rightarrow> bool" where
  "valid_obj st ob \<longleftrightarrow> list_all (\<lambda>a. a < length st) (board_rows ob)"

definition copy_obj :: "store \<Rightarrow> connect4_obj \<Rightarrow> store \<times> connect4_obj" where
  "copy_obj st ob =
     (st @ map (\<lambda>a. st ! a) (board_rows ob),
      \<lparr>board_rows = [length st ..< length st + length (board_rows ob)], obj_player = obj_player ob\<rparr>)"

fun drop_piece_obj :: "store \<Rightarrow> nat list \<Rightarrow> nat list \<Rightarrow> int \<Rightarrow> string \<Rightarrow> py_error + store" where
  "drop_piece_obj st rs [] col p = Inr st"
| "drop_piece_obj st rs (row # rows) col p =
     (case py_index (length rs) (int row) of
        Inl e \<Rightarrow> Inl e
      | Inr r \<Rightarrow>
          (case py_index (length (st ! (rs ! r))) col of
             Inl e \<Rightarrow> Inl e
           | Inr c \<Rightarrow>
               if st ! (rs ! r) ! c = '' '' then Inr (st[rs ! r := (st ! (rs ! r))[c := p]])
               else drop_piece_obj st rs rows col p))"

definition make_move_obj :: "store \<Rightarrow> connect4_obj \<Rightarrow> int \<Rightarrow> string \<Rightarrow> py_error + store \<times> connect4_obj" where
  "make_move_obj st ob col p =
     (case copy_obj st ob of (st1, new_board) \<Rightarrow>
      (case drop_piece_obj st1 (board_rows new_board) (rev [0..<6]) col p of
         Inl e \<Rightarrow> Inl e
       | Inr st2 \<Rightarrow> Inr (st2, new_board\<lparr>obj_player := other p\<rparr>)))"

subsection \<open>Notions used to state the properties of moves\<close>

text \<open>
  A column is full when none of its six cells is blank. On a board filled by gravity (no
  mark above a blank) that is the same as its top cell not being blank, which is what
  \<open>get_possible_moves\<close> looks at.
\<close>

definition column_full :: "string list list \<Rightarrow> nat \<Rightarrow> bool" where
  "column_full b c \<longleftrightarrow> list_all (\<lambda>r. b ! r ! c \<noteq> '' '') [0..<6]"

definition gravity :: "string list list \<Rightarrow> bool" where
  "gravity b \<longleftrightarrow>
     list_all (\<lambda>c. list_all (\<lambda>r. b ! r ! c = '' '' \<or> b ! Suc r ! c \<noteq> '' '') [0..<5]) [0..<7]"

text \<open>A sequence of calls of \<open>make_move\<close>, each on the state the one before returned.\<close>

fun play :: "connect4 \<Rightarrow> (int \<times> string) list \<Rightarrow> py_error + connect4" where
  "play s [] = Inr s"
| "play s ((col, p) # ms) =
     (case make_move s col p of Inl e \<Rightarrow> Inl e | Inr s' \<Rightarrow> play s' ms)"


text \<open>Two concrete states: column 0 filled by six alternating moves, and the empty board as an object.\<close>

definition column0_full :: connect4 where
  "column0_full = \<lparr>board =
     [[''O'', '' '', '' '', '' '', '' '', '' '', '' ''],
      [''X'', '' '', '' '', '' '', '' '', '' '', '' ''],
      [''O'', '' '', '' '', '' '', '' '', '' '', '' ''],
      [''X'', '' '', '' '', '' '', '' '', '' '', '' ''],
      [''O'', '' '', '' '', '' '', '' '', '' '', '' ''],
      [''X'', '' '', '' '', '' '', '' '', '' '', '' '']], player = ''X''\<rparr>"

definition column0_full_obj :: connect4_obj where
  "column0_full_obj = \<lparr>board_rows = [0, 1, 2, 3, 4, 5], obj_player = ''X''\<rparr>"

definition init_obj :: connect4_obj where
  "init_obj = \<lparr>board_rows = [0, 1, 2, 3, 4, 5], obj_player = ''X''\<rparr>"

subsection \<open>Four in a row, as the specification words it\<close>

text \<open>
  Positions are (row, column) pairs, row 0 on top. A line is four cells starting at a
  position of the board and going right, down, down-right or down-left, all four on the
  board. A line is won when its cells hold the same non-blank mark; \<open>wins\<close> lists the
  marks of the won lines, and a mark has four in a row when it is among them.
\<close>

definition on_board :: "int \<times> int \<Rightarrow> bool" where
  "on_board = (\<lambda>(r, c). 0 \<le> r \<and> r < 6 \<and> 0 \<le> c \<and> c < 7)"

definition directions :: "(int \<times> int) list" where
  "directions = [(0, 1), (1, 0), (1, 1), (1, - 1)]"

definition line_from :: "int \<times> int \<Rightarrow> int \<times> int \<Rightarrow> (int \<times> int) list" where
  "line_from = (\<lambda>(r, c) (dr, dc). map (\<lambda>i. (r + i * dr, c + i * dc)) [0, 1, 2, 3])"

definition lines :: "(int \<times> int) list list" where
  "lines = filter (list_all on_board)
     (concat (map (\<lambda>start. map (line_from start) directions)
        (List.product (map int [0..<6]) (map int [0..<7]))))"

definition cell :: "string list list \<Rightarrow> int \<times> int \<Rightarrow> string" where
  "cell b = (\<lambda>(r, c). b ! nat r ! nat c)"

definition line_won :: "string list list \<Rightarrow> (int \<times> int) list \<Rightarrow> bool" where
  "line_won b l \<longleftrightarrow> cell b (hd l) \<noteq> '' '' \<and> list_all (\<lambda>q. cell b q = cell b (hd l)) l"

text \<open>
  The same lines in the order of a scan that takes the directions one after the other
  (right, down, down-right, down-left) and, for each, the starting positions row by row
  from the top, left to right.
\<close>

definition scan_lines :: "(int \<times> int) list list" where
  "scan_lines = concat (map (\<lambda>d.
      filter (list_all on_board)
        (map (\<lambda>start. line_from start d) (List.product (map int [0..<6]) (map int [0..<7]))))
      directions)"

definition wins :: "string list list \<Rightarrow> string list" where
  "wins b = map (\<lambda>l. cell b (hd l)) (filter (line_won b) lines)"

definition four_in_row :: "string list list \<Rightarrow> string \<Rightarrow> bool" where
  "four_in_row b m \<longleftrightarrow> m \<in> set (wins b)"

definition board_full :: "string list list \<Rightarrow> bool" where
  "board_full b \<longleftrightarrow> list_all (\<lambda>r. list_all (\<lambda>c. b ! r ! c \<noteq> '' '') [0..<7]) [0..<6]"

text \<open>
  Concrete boards: a win of \<open>'X'\<close> on the bottom row, a win of \<open>'O'\<close> on a diagonal, a full
  board without a line, and a board on which both marks have a line.
\<close>

definition x_bottom_row :: connect4 where
  "x_bottom_row = \<lparr>board =
     [['' '', '' '', '' '', '' '', '' '', '' '', '' ''],
      ['' '', '' '', '' '', '' '', '' '', '' '', '' ''],
      ['' '', '' '', '' '', '' '', '' '', '' '', '' ''],
      ['' '', '' '', '' '', '' '', '' '', '' '', '' ''],
      [''O'', ''O'', ''O'', '' '', '' '', '' '', '' ''],
      [''X'', ''X'', ''X'', ''X'', '' '', '' '', '' '']], player = ''O''\<rparr>"

definition o_diagonal :: connect4 where
  "o_diagonal = \<lparr>board =
     [['' '', '' '', '' '', '' '', '' '', '' '', '' ''],
      ['' '', '' '', '' '', '' '', '' '', '' '', '' ''],
      ['' '', '' '', '' '', ''O'', '' '', '' '', '' ''],
      ['' '', '' '', ''O'', ''X'', '' '', '' '', '' ''],
      [''X'', ''O'', ''X'', ''X'', '' '', '' '', '' ''],
      [''O'', ''X'', ''X'', ''O'', '' '', '' '', ''O'']], player = ''X''\<rparr>"

definition drawn_board :: connect4 where
  "drawn_board = \<lparr>board =
     [[''X'', ''X'', ''O'', ''O'', ''X'', ''X'', ''O''],
      [''O'', ''O'', ''X'', ''X'', ''O'', ''O'', ''X''],
      [''X'', ''X'', ''O'', ''O'', ''X'', ''X'', ''O''],
      [''O'', ''O'', ''X'', ''X'', ''O'', ''O'', ''X''],
      [''X'', ''X'', ''O'', ''O'', ''X'', ''X'', ''O''],
      [''O'', ''O'', ''X'', ''X'', ''O'', ''O'', ''X'']], player = ''X''\<rparr>"

definition both_lines :: connect4 where
  "both_lines = \<lparr>board =
     [['' '', '' '', '' '', '' '', '' '', '' '', '' ''],
      ['' '', '' '', '' '', '' '', '' '', '' '', '' ''],
      ['' '', '' '', '' '', '' '', '' '', '' '', '' ''],
      ['' '', '' '', '' '', '' '', '' '', '' '', '' ''],
      [''X'', ''X'', ''X'', ''X'', '' '', '' '', '' ''],
      [''O'', ''O'', ''O'', ''O'', '' '', '' '', '' '']], player = ''O''\<rparr>"

section \<open>The search tree: class \<open>Node\<close> and \<open>mcts\<close>\<close>

text \<open>
  Nodes are objects that refer to each other (children, parent) and are updated in place,
  so the tree is a store: a list of nodes, a node's address being its index. A new node is
  appended, so it gets the address \<open>length h\<close>. The field \<open>player\<close> of \<open>Node\<close> is called
  \<open>node_player\<close> here, \<open>player\<close> being the field of \<open>Connect4\<close>. The \<open>Connect4\<close> object
  a node holds is never written to after \<open>make_move\<close> returned it, so it is held by value.
\<close>

record node =
  state :: connect4
  node_player :: string
  children :: "nat list"
  visits :: int
  score :: int
  parent :: "nat option"

type_synonym heap = "node list"

text \<open>\<open>Node.__init__\<close>.\<close>

definition Node :: "connect4 \<Rightarrow> string \<Rightarrow> nat option \<Rightarrow> node" where
  "Node st p par = \<lparr>state = st, node_player = p, children = [], visits = 0, score = 0, parent = par\<rparr>"

text \<open>
  Python's \<open>max(xs, key=f)\<close>: the first element whose key no later element exceeds
  (a later element replaces the candidate only when its key is strictly greater), and
  \<open>ValueError\<close> on an empty sequence.
\<close>

fun max_from :: "('a \<Rightarrow> 'k::linorder) \<Rightarrow> 'a \<Rightarrow> 'a list \<Rightarrow> 'a" where
  "max_from key best [] = best"
| "max_from key best (x # xs) = max_from key (if key best < key x then x else best) xs"

definition py_max :: "('a \<Rightarrow> 'k::linorder) \<Rightarrow> 'a list \<Rightarrow> py_error + 'a" where
  "py_max key xs = (case xs of [] \<Rightarrow> Inl ValueError | x # rest \<Rightarrow> Inr (max_from key x rest))"

text \<open>
  \<open>select_child\<close>: the sum of the children's visits, and \<open>max\<close> over the children
  with the score as key. The score is an argument here, \<open>ucb total_visits score visits\<close>,
  into any linear order; the score the source computes is \<open>ucb_score\<close> below.
\<close>

definition select_child :: "(int \<Rightarrow> int \<Rightarrow> int \<Rightarrow> 'k::linorder) \<Rightarrow> heap \<Rightarrow> nat \<Rightarrow> py_error + nat" where
  "select_child ucb h n =
     (let total_visits = sum_list (map (\<lambda>child. visits (h ! child)) (children (h ! n)));
          ucb_score = (\<lambda>c. ucb total_visits (score (h ! c)) (visits (h ! c)))
      in py_max ucb_score (children (h ! n)))"

text \<open>
  The score of the source, \<open>node.score / (node.visits + 1e-8) +
  math.sqrt(log_exploration_value / (node.visits + 1e-8))\<close> with
  \<open>log_exploration_value = math.log(total_visits + 1e-8) if total_visits else 0\<close>. It is
  computed in floating point; the operations (the conversion of an integer, addition,
  division, \<open>math.log\<close>, \<open>math.sqrt\<close>, the constant \<open>1e-8\<close>) are a parameter, so that
  what is proved holds whatever they round to. On the trees the program builds no visit
  count is negative, so none of them raises.
\<close>

record 'f float_ops =
  of_int_f :: "int \<Rightarrow> 'f"
  f_add :: "'f \<Rightarrow> 'f \<Rightarrow> 'f"
  f_div :: "'f \<Rightarrow> 'f \<Rightarrow> 'f"
  f_log :: "'f \<Rightarrow> 'f"
  f_sqrt :: "'f \<Rightarrow> 'f"
  f_eps :: "'f"

definition ucb_score :: "'f float_ops \<Rightarrow> int \<Rightarrow> int \<Rightarrow> int \<Rightarrow> 'f" where
  "ucb_score fl total_visits sc v =
     (let log_exploration_value =
            (if total_visits \<noteq> 0
             then f_log fl (f_add fl (of_int_f fl total_visits) (f_eps fl))
             else of_int_f fl 0)
      in f_add fl
           (f_div fl (of_int_f fl sc) (f_add fl (of_int_f fl v) (f_eps fl)))
           (f_sqrt fl (f_div fl log_exploration_value (f_add fl (of_int_f fl v) (f_eps fl)))))"



text \<open>
  \<open>expand\<close>: one new node per possible move, appended to the store and to the children
  of the node, in the order of \<open>get_possible_moves\<close>; it returns the children list.
\<close>

fun expand_loop :: "heap \<Rightarrow> nat \<Rightarrow> nat list \<Rightarrow> py_error + heap" where
  "expand_loop h n [] = Inr h"
| "expand_loop h n (move # moves) =
     (case make_move (state (h ! n)) (int move) (node_player (h ! n)) of
        Inl e \<Rightarrow> Inl e
      | Inr new_state \<Rightarrow>
          (let new_player = other (node_player (h ! n));
               child = Node new_state new_player (Some n);
               h1 = h @ [child];
               h2 = h1[n := (h1 ! n)\<lparr>children := children (h1 ! n) @ [length h]\<rparr>]
           in expand_loop h2 n moves))"

definition expand :: "heap \<Rightarrow> nat \<Rightarrow> py_error + heap \<times> nat list" where
  "expand h n =
     (case expand_loop h n (get_possible_moves (state (h ! n))) of
        Inl e \<Rightarrow> Inl e
      | Inr h' \<Rightarrow> Inr (h', children (h' ! n)))"

text \<open>
  \<open>random.choice\<close>: some element of a non-empty sequence, picked by the next number of
  the random source; \<open>IndexError\<close> on an empty one.
\<close>

definition choice :: "'a list \<Rightarrow> nat \<Rightarrow> py_error + 'a" where
  "choice xs r = (if xs = [] then Inl IndexError else Inr (xs ! (r mod length xs)))"

text \<open>
  \<open>backpropagate\<close> follows the parent references; on a store whose parent references
  form a cycle it does not return, which is the value \<open>None\<close>. (The interpreter's limit
  on the recursion depth is not modelled.)
\<close>

partial_function (option) backpropagate :: "heap \<Rightarrow> nat \<Rightarrow> int \<Rightarrow> heap option" where
  "backpropagate h n sc =
     (let h' = h[n := (h ! n)\<lparr>visits := visits (h ! n) + 1, score := score (h ! n) + sc\<rparr>]
      in case parent (h' ! n) of
           None \<Rightarrow> Some h'
         | Some p \<Rightarrow> backpropagate h' p (- sc))"

text \<open>
  The selection loop of \<open>mcts\<close>: \<open>while node.children and not
  node.state.is_terminal(): node = node.select_child()\<close>.
\<close>

partial_function (option) select_leaf ::
  "(int \<Rightarrow> int \<Rightarrow> int \<Rightarrow> 'k::linorder) \<Rightarrow> heap \<Rightarrow> nat \<Rightarrow> (py_error + nat) option" where
  "select_leaf ucb h node =
     (if children (h ! node) \<noteq> [] \<and> \<not> is_terminal (state (h ! node))
      then (case select_child ucb h node of
              Inl e \<Rightarrow> Some (Inl e)
            | Inr c \<Rightarrow> select_leaf ucb h c)
      else Some (Inr node))"

declare backpropagate.simps [code]
declare select_leaf.simps [code]

text \<open>
  \<open>simulate\<close>: a random playout from a copy of the node's state. The random source is
  a sequence \<open>rng\<close> of numbers and a position \<open>k\<close> in it; the loop returns the
  evaluation and the position it stopped at. Every round fills a blank cell (or, for a
  blank mark, moves on to a non-blank mark), which is why the loop ends on every board.
\<close>

lemma py_index_less: "py_index n i = Inr r \<Longrightarrow> r < n"
  by (auto simp: py_index_def split: if_splits)

definition blanks :: "string list list \<Rightarrow> nat" where
  "blanks b = sum_list (map (\<lambda>row. count_list row '' '') b)"

lemma count_list_update:
  "c < length row \<Longrightarrow>
   count_list (row[c := p]) x + (if row ! c = x then 1 else 0) =
   count_list row x + (if p = x then 1 else 0)"
proof (induction row arbitrary: c)
  case Nil
  then show ?case by simp
next
  case (Cons a row)
  show ?case
  proof (cases c)
    case 0
    then show ?thesis by simp
  next
    case (Suc n)
    with Cons.prems have "n < length row" by simp
    from Cons.IH [OF this] Suc show ?thesis by (simp split: if_splits)
  qed
qed

lemma sum_list_map_update:
  "r < length b \<Longrightarrow>
   sum_list (map f (b[r := y])) + f (b ! r) = sum_list (map f b) + (f y :: nat)"
proof (induction b arbitrary: r)
  case Nil
  then show ?case by simp
next
  case (Cons a b)
  then show ?case by (cases r) (auto simp: add.assoc add.left_commute)
qed

lemma blanks_update:
  assumes "r < length b" "c < length (b ! r)" "b ! r ! c = '' ''"
  shows "blanks (b[r := (b ! r)[c := p]]) + 1 = blanks b + (if p = '' '' then 1 else 0)"
proof -
  from count_list_update [OF assms(2), of p "'' ''"] assms(3)
  have "count_list ((b ! r)[c := p]) '' '' + 1 = count_list (b ! r) '' '' + (if p = '' '' then 1 else 0)"
    by simp
  with sum_list_map_update [OF assms(1), of "\<lambda>row. count_list row '' ''" "(b ! r)[c := p]"]
  show ?thesis by (simp add: blanks_def)
qed

lemma drop_piece_cases:
  "drop_piece b rows col p = Inr b' \<Longrightarrow>
     (b' = b \<and> (\<forall>row \<in> set rows. \<exists>r c. py_index (length b) (int row) = Inr r
          \<and> py_index (length (b ! r)) col = Inr c \<and> b ! r ! c \<noteq> '' ''))
   \<or> (\<exists>r c. r < length b \<and> c < length (b ! r) \<and> b ! r ! c = '' '' \<and> b' = b[r := (b ! r)[c := p]])"
proof (induction rows)
  case Nil
  then show ?case by simp
next
  case (Cons row rows)
  then show ?case
    by (auto split: sum.splits if_splits dest: py_index_less)
qed

lemma py_index_nat_Inr: "py_index n (int i) = Inr j \<Longrightarrow> j = i"
  by (auto simp: py_index_def split: if_splits)

lemma make_move_possible:
  assumes mv: "make_move st (int move) p = Inr st'"
    and m: "move \<in> set (get_possible_moves st)"
  shows "blanks (board st') + 1 = blanks (board st) + (if p = '' '' then 1 else 0)"
    and "player st' = other p"
proof -
  let ?b = "board st"
  from mv have d: "drop_piece ?b (rev [0..<6]) (int move) p = Inr (board st')"
    and pl: "player st' = other p"
    by (auto simp: make_move_def copy_def Let_def split: sum.splits)
  from m have top: "?b ! 0 ! move = '' ''" by (simp add: get_possible_moves_def)
  have "0 \<in> set (rev [0..<6::nat])" by simp
  with drop_piece_cases [OF d] top
  obtain r c where "r < length ?b" "c < length (?b ! r)" "?b ! r ! c = '' ''"
    "board st' = ?b[r := (?b ! r)[c := p]]"
    by (metis py_index_nat_Inr of_nat_0)
  then show "blanks (board st') + 1 = blanks (board st) + (if p = '' '' then 1 else 0)"
    using blanks_update by simp
  show "player st' = other p" by (rule pl)
qed

lemma choice_mem: "choice xs r = Inr x \<Longrightarrow> x \<in> set xs"
  by (auto simp: choice_def split: if_splits)

function simulate_loop :: "(nat \<Rightarrow> nat) \<Rightarrow> nat \<Rightarrow> connect4 \<Rightarrow> string \<Rightarrow> py_error + int \<times> nat" where
  "simulate_loop rng k st p =
     (if is_terminal st then Inr (evaluate st, k)
      else (case choice (get_possible_moves st) (rng k) of
              Inl e \<Rightarrow> Inl e
            | Inr move \<Rightarrow>
                (case make_move st (int move) p of
                   Inl e \<Rightarrow> Inl e
                 | Inr st' \<Rightarrow> simulate_loop rng (Suc k) st' (other p))))"
  by pat_completeness auto
termination
proof (relation "measure (\<lambda>(rng, k, st, p). 2 * blanks (board st) + (if p = '' '' then 1 else 0))")
  show "wf (measure (\<lambda>(rng, k, st, p). 2 * blanks (board st) + (if p = '' '' then 1 else 0)))"
    by simp
next
  fix rng :: "nat \<Rightarrow> nat" and k st p move st'
  assume "choice (get_possible_moves st) (rng k) = Inr move"
    and mv: "make_move st (int move) p = Inr st'"
  then have "move \<in> set (get_possible_moves st)" by (simp add: choice_mem)
  from make_move_possible(1) [OF mv this]
  show "((rng, Suc k, st', other p), (rng, k, st, p))
      \<in> measure (\<lambda>(rng, k, st, p). 2 * blanks (board st) + (if p = '' '' then 1 else 0))"
    by (auto simp: other_def split: if_splits)
qed

definition simulate :: "heap \<Rightarrow> nat \<Rightarrow> (nat \<Rightarrow> nat) \<Rightarrow> nat \<Rightarrow> py_error + int \<times> nat" where
  "simulate h n rng k = simulate_loop rng k (copy (state (h ! n))) (node_player (h ! n))"

text \<open>
  The parameter \<open>root\<close> of \<open>mcts\<close> is \<open>root_node\<close> here, \<open>root\<close> being a constant of the
  library. One round of the loop of \<open>mcts\<close> (selection, expansion, simulation,
  backpropagation) on the store \<open>h\<close> and the position \<open>k\<close> of the random source, the
  loop, and \<open>mcts\<close>. \<open>None\<close>: the call does not return; \<open>Some (Inl e)\<close>: it raises
  \<open>e\<close>; \<open>Some (Inr r)\<close>: it returns \<open>r\<close>.
\<close>

definition mcts_iteration ::
  "(int \<Rightarrow> int \<Rightarrow> int \<Rightarrow> 'k::linorder) \<Rightarrow> (nat \<Rightarrow> nat) \<Rightarrow> nat \<Rightarrow> heap \<times> nat
     \<Rightarrow> (py_error + heap \<times> nat) option" where
  "mcts_iteration ucb rng root_node = (\<lambda>(h, k).
     case select_leaf ucb h root_node of
       None \<Rightarrow> None
     | Some (Inl e) \<Rightarrow> Some (Inl e)
     | Some (Inr node) \<Rightarrow>
         (case (if \<not> is_terminal (state (h ! node))
                then (case expand h node of
                        Inl e \<Rightarrow> Inl e
                      | Inr (h1, cs) \<Rightarrow>
                          (case cs of [] \<Rightarrow> Inl IndexError | c # _ \<Rightarrow> Inr (h1, c)))
                else Inr (h, node)) of
            Inl e \<Rightarrow> Some (Inl e)
          | Inr (h1, node1) \<Rightarrow>
              (case simulate h1 node1 rng k of
                 Inl e \<Rightarrow> Some (Inl e)
               | Inr (sc, k') \<Rightarrow>
                   (case backpropagate h1 node1 sc of
                      None \<Rightarrow> None
                    | Some h2 \<Rightarrow> Some (Inr (h2, k'))))))"

fun mcts_loop ::
  "(int \<Rightarrow> int \<Rightarrow> int \<Rightarrow> 'k::linorder) \<Rightarrow> (nat \<Rightarrow> nat) \<Rightarrow> nat \<Rightarrow> nat \<Rightarrow> heap \<times> nat
     \<Rightarrow> (py_error + heap \<times> nat) option" where
  "mcts_loop ucb rng root_node 0 hk = Some (Inr hk)"
| "mcts_loop ucb rng root_node (Suc i) hk =
     (case mcts_iteration ucb rng root_node hk of
        None \<Rightarrow> None
      | Some (Inl e) \<Rightarrow> Some (Inl e)
      | Some (Inr hk') \<Rightarrow> mcts_loop ucb rng root_node i hk')"

definition mcts ::
  "(int \<Rightarrow> int \<Rightarrow> int \<Rightarrow> 'k::linorder) \<Rightarrow> (nat \<Rightarrow> nat) \<Rightarrow> heap \<times> nat \<Rightarrow> nat \<Rightarrow> int
     \<Rightarrow> (py_error + (heap \<times> nat) \<times> nat) option" where
  "mcts ucb rng hk root_node iterations =
     (case mcts_loop ucb rng root_node (nat iterations) hk of
        None \<Rightarrow> None
      | Some (Inl e) \<Rightarrow> Some (Inl e)
      | Some (Inr (h, k)) \<Rightarrow>
          (case py_max (\<lambda>node. visits (h ! node)) (children (h ! root_node)) of
             Inl e \<Rightarrow> Some (Inl e)
           | Inr best \<Rightarrow> Some (Inr ((h, k), best))))"

subsection \<open>Trees as the program builds them\<close>

text \<open>
  In a store built by \<open>Node\<close> and \<open>expand\<close> a parent exists before its children, so
  its address is smaller (\<open>parents_before\<close>); \<open>heap_ok\<close> adds that the children of a
  node are distinct nodes of the store whose parent it is, that a node is among the
  children of its parent, and that every board is 6 by 7. \<open>chain h n\<close> is the node \<open>n\<close>
  followed by its ancestors, nearest first.
\<close>

definition parents_before :: "heap \<Rightarrow> bool" where
  "parents_before h \<longleftrightarrow>
     list_all (\<lambda>i. case parent (h ! i) of None \<Rightarrow> True | Some p \<Rightarrow> p < i) [0..<length h]"

definition heap_ok :: "heap \<Rightarrow> bool" where
  "heap_ok h \<longleftrightarrow> list_all (\<lambda>n.
       list_all (\<lambda>c. c < length h \<and> parent (h ! c) = Some n) (children (h ! n))
     \<and> distinct (children (h ! n))
     \<and> (case parent (h ! n) of None \<Rightarrow> True | Some p \<Rightarrow> p < n \<and> n \<in> set (children (h ! p)))
     \<and> wf_board (board (state (h ! n)))) [0..<length h]"

fun chain :: "heap \<Rightarrow> nat \<Rightarrow> nat list" where
  "chain h n = n # (case parent (h ! n) of None \<Rightarrow> [] | Some p \<Rightarrow> if p < n then chain h p else [])"

declare chain.simps [simp del]

text \<open>A root, a child and a grandchild, after some search.\<close>

definition x_opening :: connect4 where
  "x_opening = \<lparr>board =
     [['' '', '' '', '' '', '' '', '' '', '' '', '' ''],
      ['' '', '' '', '' '', '' '', '' '', '' '', '' ''],
      ['' '', '' '', '' '', '' '', '' '', '' '', '' ''],
      ['' '', '' '', '' '', '' '', '' '', '' '', '' ''],
      ['' '', '' '', '' '', '' '', '' '', '' '', '' ''],
      ['' '', '' '', '' '', ''X'', '' '', '' '', '' '']], player = ''O''\<rparr>"

definition xo_opening :: connect4 where
  "xo_opening = \<lparr>board =
     [['' '', '' '', '' '', '' '', '' '', '' '', '' ''],
      ['' '', '' '', '' '', '' '', '' '', '' '', '' ''],
      ['' '', '' '', '' '', '' '', '' '', '' '', '' ''],
      ['' '', '' '', '' '', '' '', '' '', '' '', '' ''],
      ['' '', '' '', '' '', ''O'', '' '', '' '', '' ''],
      ['' '', '' '', '' '', ''X'', '' '', '' '', '' '']], player = ''X''\<rparr>"

definition small_tree :: heap where
  "small_tree =
     [\<lparr>state = init_state, node_player = ''X'', children = [1], visits = 2, score = 1, parent = None\<rparr>,
      \<lparr>state = x_opening, node_player = ''O'', children = [2], visits = 1, score = 0, parent = Some 0\<rparr>,
      \<lparr>state = xo_opening, node_player = ''X'', children = [], visits = 0, score = 0, parent = Some 1\<rparr>]"

text \<open>The sum of the visit counts of the children of a node.\<close>

definition sumv :: "heap \<Rightarrow> nat \<Rightarrow> int" where
  "sumv h n = sum_list (map (\<lambda>child. visits (h ! child)) (children (h ! n)))"

text \<open>
  The tree \<open>reset_tree\<close> builds, a single root on the empty board, and a single root on
  a board that \<open>'X'\<close> has won.
\<close>

definition fresh_tree :: heap where
  "fresh_tree = [Node init_state ''X'' None]"

definition won_tree :: heap where
  "won_tree = [Node x_bottom_row ''O'' None]"

section \<open>Moves on a well-formed board\<close>

lemma py_index_nat: "c < n \<Longrightarrow> py_index n (int c) = Inr c"
  by (simp add: py_index_def)

lemma wf_board_row: "wf_board b \<Longrightarrow> r < 6 \<Longrightarrow> length (b ! r) = 7"
  by (simp add: wf_board_def list_all_length)

lemma drop_piece_find:
  "wf_board b \<Longrightarrow> c < 7 \<Longrightarrow> set rows \<subseteq> {..<6} \<Longrightarrow>
   drop_piece b rows (int c) p =
     Inr (case find (\<lambda>r. b ! r ! c = '' '') rows of
            None \<Rightarrow> b
          | Some r \<Rightarrow> b[r := (b ! r)[c := p]])"
proof (induction rows)
  case Nil
  then show ?case by simp
next
  case (Cons row rows)
  have r: "row < 6" using Cons.prems by simp
  have lb: "length b = 6" using Cons.prems by (simp add: wf_board_def)
  have lr: "length (b ! row) = 7" using Cons.prems r by (simp add: wf_board_row)
  show ?case using Cons r lb lr by (simp add: py_index_nat)
qed

text \<open>The row a piece dropped into column \<open>c\<close> comes to rest in, if any.\<close>

definition landing_row :: "string list list \<Rightarrow> nat \<Rightarrow> nat option" where
  "landing_row b c = find (\<lambda>r. b ! r ! c = '' '') (rev [0..<6])"

lemma make_move_in_range:
  assumes wf: "wf_board (board s)" and c: "c < 7"
  shows "make_move s (int c) p =
     Inr \<lparr>board = (case landing_row (board s) c of
                      None \<Rightarrow> board s
                    | Some r \<Rightarrow> (board s)[r := (board s ! r)[c := p]]),
          player = other p\<rparr>"
proof -
  have "set (rev [0..<6]) \<subseteq> {..<6::nat}" by auto
  from drop_piece_find [OF wf c this, of p] show ?thesis
    by (simp add: make_move_def copy_def landing_row_def Let_def)
qed

lemma find_rev_upt:
  "find P (rev [0..<n]) = Some r \<longleftrightarrow> r < n \<and> P r \<and> (\<forall>r'. r < r' \<and> r' < n \<longrightarrow> \<not> P r')"
  by (induction n) (auto simp: less_Suc_eq)

lemma landing_row_None: "landing_row b c = None \<longleftrightarrow> (\<forall>r<6. b ! r ! c \<noteq> '' '')"
  by (auto simp: landing_row_def find_None_iff)

lemma landing_row_Some:
  "landing_row b c = Some r \<longleftrightarrow>
     r < 6 \<and> b ! r ! c = '' '' \<and> (\<forall>r'. r < r' \<and> r' < 6 \<longrightarrow> b ! r' ! c \<noteq> '' '')"
  unfolding landing_row_def by (rule find_rev_upt)

section \<open>The object-level \<open>make_move\<close> refines the value-level one\<close>

lemma map_nth_update_distinct:
  "distinct rs \<Longrightarrow> r < length rs \<Longrightarrow> rs ! r < length st \<Longrightarrow>
   map (\<lambda>a. st[rs ! r := v] ! a) rs = (map (\<lambda>a. st ! a) rs)[r := v]"
  by (rule nth_equalityI) (auto simp: nth_list_update nth_eq_iff_index_eq)

lemma drop_piece_obj_refines:
  "distinct rs \<Longrightarrow> list_all (\<lambda>a. a < length st) rs \<Longrightarrow>
   (case drop_piece_obj st rs rows col p of
      Inl e \<Rightarrow> drop_piece (map (\<lambda>a. st ! a) rs) rows col p = Inl e
    | Inr st' \<Rightarrow> drop_piece (map (\<lambda>a. st ! a) rs) rows col p = Inr (map (\<lambda>a. st' ! a) rs)
         \<and> length st' = length st \<and> (\<forall>a. a \<notin> set rs \<longrightarrow> st' ! a = st ! a))"
proof (induction rows)
  case Nil
  then show ?case by simp
next
  case (Cons row rows)
  show ?case
  proof (cases "py_index (length rs) (int row)")
    case (Inl e)
    then show ?thesis by simp
  next
    case (Inr r)
    then have r: "r < length rs" by (rule py_index_less)
    then have a: "rs ! r < length st" using Cons.prems by (simp add: list_all_length)
    have mem: "rs ! r \<in> set rs" using r by simp
    show ?thesis
    proof (cases "py_index (length (st ! (rs ! r))) col")
      case (Inl e)
      then show ?thesis using Inr r by simp
    next
      case c: (Inr c)
      show ?thesis
      proof (cases "st ! (rs ! r) ! c = '' ''")
        case True
        have "\<forall>a. a \<notin> set rs \<longrightarrow> st[rs ! r := (st ! (rs ! r))[c := p]] ! a = st ! a"
          using mem by (metis nth_list_update_neq)
        then show ?thesis using True Inr c r a Cons.prems
          by (simp add: map_nth_update_distinct)
      next
        case False
        then show ?thesis using Inr c r Cons by (auto split: sum.splits)
      qed
    qed
  qed
qed

lemma make_move_obj_refines:
  assumes "valid_obj st ob"
  shows "case make_move_obj st ob col p of
      Inl e \<Rightarrow> make_move (view st ob) col p = Inl e
    | Inr (st', ob') \<Rightarrow> make_move (view st ob) col p = Inr (view st' ob')
         \<and> take (length st) st' = st"
proof -
  let ?st1 = "st @ map (\<lambda>a. st ! a) (board_rows ob)"
  let ?rs = "[length st ..< length st + length (board_rows ob)]"
  have d: "distinct ?rs" by simp
  have v: "list_all (\<lambda>a. a < length ?st1) ?rs" by (simp add: list_all_iff)
  have b: "map (\<lambda>a. ?st1 ! a) ?rs = map (\<lambda>a. st ! a) (board_rows ob)"
    by (rule nth_equalityI) (auto simp: nth_append)
  show ?thesis
  proof (cases "drop_piece_obj ?st1 ?rs (rev [0..<6]) col p")
    case (Inl e)
    with drop_piece_obj_refines [OF d v, of "rev [0..<6]" col p] b show ?thesis
      by (simp add: make_move_obj_def copy_obj_def make_move_def copy_def view_def)
  next
    case (Inr st2)
    with drop_piece_obj_refines [OF d v, of "rev [0..<6]" col p] b
    have 1: "drop_piece (map (\<lambda>a. st ! a) (board_rows ob)) (rev [0..<6]) col p = Inr (map (\<lambda>a. st2 ! a) ?rs)"
      and 2: "length st2 = length ?st1" and 3: "\<forall>a. a \<notin> set ?rs \<longrightarrow> st2 ! a = ?st1 ! a"
      by simp_all
    have "take (length st) st2 = st"
      by (rule nth_equalityI) (use 2 3 in \<open>auto simp: nth_append\<close>)
    then show ?thesis using Inr 1
      by (simp add: make_move_obj_def copy_obj_def make_move_def copy_def view_def)
  qed
qed

section \<open>Full columns, gravity and repeated moves\<close>

lemma column_full_iff: "column_full b c \<longleftrightarrow> (\<forall>r<6. b ! r ! c \<noteq> '' '')"
  by (auto simp: column_full_def list_all_iff)

lemma gravity_step: "gravity b \<Longrightarrow> c < 7 \<Longrightarrow> r < 5 \<Longrightarrow> b ! r ! c \<noteq> '' '' \<Longrightarrow> b ! Suc r ! c \<noteq> '' ''"
  unfolding gravity_def list_all_iff by (metis atLeastLessThan_iff set_upt zero_le)

lemma gravity_below:
  "gravity b \<Longrightarrow> c < 7 \<Longrightarrow> b ! r ! c \<noteq> '' '' \<Longrightarrow> r + k < 6 \<Longrightarrow> b ! (r + k) ! c \<noteq> '' ''"
proof (induction k)
  case 0
  then show ?case by simp
next
  case (Suc k)
  then have "b ! (r + k) ! c \<noteq> '' ''" by simp
  with Suc.prems gravity_step [of b c "r + k"] show ?case by simp
qed

lemma gravity_top_full:
  assumes "gravity b" "c < 7" "b ! 0 ! c \<noteq> '' ''"
  shows "column_full b c"
  unfolding column_full_iff
proof (intro allI impI)
  fix r :: nat assume "r < 6"
  with gravity_below [OF assms, of r] show "b ! r ! c \<noteq> '' ''" by simp
qed

lemma make_move_full:
  assumes "wf_board (board s)" "c < 7" "column_full (board s) c"
  shows "make_move s (int c) p = Inr \<lparr>board = board s, player = other p\<rparr>"
proof -
  have "landing_row (board s) c = None"
    using assms(3) by (simp add: landing_row_None column_full_iff)
  then show ?thesis using make_move_in_range [OF assms(1,2), of p] by simp
qed

lemma wf_board_update: "wf_board b \<Longrightarrow> wf_board (b[r := (b ! r)[c := p]])"
  by (cases "r < length b") (auto simp: wf_board_def list_all_length nth_list_update)

lemma make_move_wf:
  assumes "wf_board (board s)" "make_move s col p = Inr s'"
  shows "wf_board (board s')"
proof -
  have "drop_piece b rows col p = Inr b' \<Longrightarrow> wf_board b \<Longrightarrow> wf_board b'" for b rows b'
    by (induction rows) (auto split: sum.splits if_splits simp: wf_board_update)
  with assms show ?thesis
    by (auto simp: make_move_def copy_def Let_def split: sum.splits)
qed

lemma init_wf: "wf_board (board init_state)"
  by (simp add: init_state_def wf_board_def list_all_iff)

definition filled_from :: "string list list \<Rightarrow> nat \<Rightarrow> nat \<Rightarrow> bool" where
  "filled_from b c k \<longleftrightarrow> (\<forall>r. 6 - k \<le> r \<and> r < 6 \<longrightarrow> b ! r ! c \<noteq> '' '')"

lemma make_move_fills:
  assumes wf: "wf_board (board s)" and c: "c < 7" and p: "p \<noteq> '' ''"
    and f: "filled_from (board s) c k"
  shows "\<exists>s'. make_move s (int c) p = Inr s' \<and> wf_board (board s') \<and> filled_from (board s') c (Suc k)"
proof (cases "landing_row (board s) c")
  case None
  then have "filled_from (board s) c (Suc k)"
    by (simp add: landing_row_None filled_from_def)
  with None wf make_move_in_range [OF wf c, of p] show ?thesis by simp
next
  case (Some r)
  then have r: "r < 6" "\<forall>r'. r < r' \<and> r' < 6 \<longrightarrow> board s ! r' ! c \<noteq> '' ''" "board s ! r ! c = '' ''"
    by (simp_all add: landing_row_Some)
  let ?b = "(board s)[r := (board s ! r)[c := p]]"
  have lb: "length (board s) = 6" using wf by (simp add: wf_board_def)
  have lr: "length (board s ! r) = 7" using wf r(1) by (rule wf_board_row)
  have rk: "r < 6 - k" using f r(1,3) by (auto simp: filled_from_def) (metis not_le_imp_less)
  have "?b ! r' ! c \<noteq> '' ''" if "6 - Suc k \<le> r'" "r' < 6" for r'
  proof (cases "r' = r")
    case True
    then show ?thesis using lb lr r(1) c p by simp
  next
    case False
    then have "r < r'" using that rk by simp
    then show ?thesis using False r(2) that lb by simp
  qed
  then have "filled_from ?b c (Suc k)" by (simp add: filled_from_def)
  with Some wf make_move_in_range [OF wf c, of p] show ?thesis
    by (simp add: wf_board_update)
qed


lemma play_same_column:
  assumes c: "c < 7"
  shows "wf_board (board s) \<Longrightarrow> filled_from (board s) c k \<Longrightarrow> '' '' \<notin> set ps \<Longrightarrow>
    \<exists>s'. play s (map (\<lambda>p. (int c, p)) ps) = Inr s' \<and> wf_board (board s')
       \<and> filled_from (board s') c (k + length ps)"
proof (induction ps arbitrary: s k)
  case Nil
  then show ?case by simp
next
  case (Cons p ps)
  then have "p \<noteq> '' ''" by auto
  from make_move_fills [OF Cons.prems(1) c this Cons.prems(2)]
  obtain s1 where s1: "make_move s (int c) p = Inr s1" "wf_board (board s1)"
    "filled_from (board s1) c (Suc k)" by blast
  from Cons.IH [OF s1(2,3)] Cons.prems(3) s1(1) show ?case by auto
qed

lemma rows_desc: "rev [0..<6] = [5, 4, 3, 2, 1, 0::nat]"
  by code_simp

lemma make_move_out_of_range:
  assumes wf: "wf_board (board s)" and col: "col < - 7 \<or> 7 \<le> col"
  shows "make_move s col p = Inl IndexError"
proof -
  have lb: "length (board s) = 6" using wf by (simp add: wf_board_def)
  have lr: "length (board s ! 5) = 7" using wf by (simp add: wf_board_row)
  have "py_index 7 col = Inl IndexError" using col by (auto simp: py_index_def)
  then show ?thesis using lb lr
    by (simp add: make_move_def copy_def Let_def rows_desc py_index_nat [of 5 6, simplified])
qed

lemma drop_piece_negative:
  assumes wf: "wf_board b" and col: "- 7 \<le> col" "col < 0" and rows: "set rows \<subseteq> {..<6}"
  shows "drop_piece b rows col p = drop_piece b rows (col + 7) p"
  using rows
proof (induction rows)
  case Nil
  then show ?case by simp
next
  case (Cons row rows)
  then have r: "row < 6" by simp
  have lb: "length b = 6" using wf by (simp add: wf_board_def)
  have lr: "length (b ! row) = 7" using wf r by (rule wf_board_row)
  have "py_index 7 col = py_index 7 (col + 7)" using col by (simp add: py_index_def)
  then show ?case using Cons r lb lr by (auto simp: py_index_nat split: sum.splits)
qed

lemma make_move_negative:
  assumes wf: "wf_board (board s)" and col: "- 7 \<le> col" "col < 0"
  shows "make_move s col p = make_move s (col + 7) p"
proof -
  have "set (rev [0..<6]) \<subseteq> {..<6::nat}" by auto
  from drop_piece_negative [OF wf col this] show ?thesis
    by (simp add: make_move_def copy_def Let_def)
qed

section \<open>What \<open>make_move\<close> does: claims C1, C7 and C10\<close>

lemma view_column0_full: "view (board column0_full) column0_full_obj = column0_full"
  by (simp add: view_def column0_full_def column0_full_obj_def)

lemma valid_column0_full: "valid_obj (board column0_full) column0_full_obj"
  by (simp add: valid_obj_def column0_full_def column0_full_obj_def)

lemma wf_column0_full: "wf_board (board column0_full)"
  by (simp add: wf_board_def column0_full_def)

lemma column0_is_full: "column_full (board column0_full) 0"
  by code_simp

text \<open>
  Claim C1 as stated fails: \<open>make_move\<close> has no check of the column and no
  \<open>IllegalMoveError\<close>. After six moves in column 0 of the empty board, the seventh call on
  that column returns a state, it does not raise.
\<close>

theorem make_move_seventh_counterexample:
  "play init_state [(0, ''X''), (0, ''O''), (0, ''X''), (0, ''O''), (0, ''X''), (0, ''O'')]
     = Inr column0_full
   \<and> make_move column0_full 0 ''X'' = Inr (column0_full\<lparr>player := ''O''\<rparr>)"
  by code_simp


lemma view_unchanged:
  assumes "valid_obj st ob" "take (length st) st' = st"
  shows "view st' ob = view st ob"
proof -
  have "st' ! a = st ! a" if "a < length st" for a
    using that assms(2) by (metis nth_take)
  then show ?thesis using assms(1) by (simp add: view_def valid_obj_def list_all_iff)
qed

text \<open>
  Claim C1, amended: on a 6 by 7 board, \<open>make_move\<close> raises \<open>IndexError\<close> for a column
  below \<open>-7\<close> or above \<open>6\<close>, plays column \<open>col + 7\<close> for a column in \<open>-7 .. -1\<close>, and
  returns a state for every column in \<open>0 .. 6\<close>, full or not. After six moves with non-blank
  marks in one column, \<open>get_possible_moves\<close> no longer lists the column, and a seventh
  move there returns the state with the same grid.
\<close>

theorem make_move_errors:
  assumes wf: "wf_board (board s)"
  shows "(col < - 7 \<or> 7 \<le> col \<longrightarrow> make_move s col p = Inl IndexError)
    \<and> (- 7 \<le> col \<and> col < 0 \<longrightarrow> make_move s col p = make_move s (col + 7) p)
    \<and> (0 \<le> col \<and> col < 7 \<longrightarrow> (\<exists>s'. make_move s col p = Inr s' \<and> wf_board (board s')))
    \<and> (0 \<le> col \<and> col < 7 \<and> length ps = 6 \<and> '' '' \<notin> set ps \<longrightarrow>
         (\<exists>s6. play s (map (\<lambda>q. (col, q)) ps) = Inr s6
            \<and> nat col \<notin> set (get_possible_moves s6)
            \<and> make_move s6 col p = Inr \<lparr>board = board s6, player = other p\<rparr>))"
proof (intro conjI impI)
  assume "col < - 7 \<or> 7 \<le> col"
  with wf show "make_move s col p = Inl IndexError" by (rule make_move_out_of_range)
next
  assume "- 7 \<le> col \<and> col < 0"
  with wf show "make_move s col p = make_move s (col + 7) p" by (simp add: make_move_negative)
next
  assume "0 \<le> col \<and> col < 7"
  then have c: "nat col < 7" "col = int (nat col)" by linarith+
  from make_move_in_range [OF wf c(1), of p] c(2) wf
  show "\<exists>s'. make_move s col p = Inr s' \<and> wf_board (board s')"
    by (auto simp: wf_board_update split: option.splits)
next
  assume a: "0 \<le> col \<and> col < 7 \<and> length ps = 6 \<and> '' '' \<notin> set ps"
  then have c: "nat col < 7" "col = int (nat col)" by linarith+
  have "filled_from (board s) (nat col) 0" by (auto simp: filled_from_def)
  from play_same_column [OF c(1) wf this, of ps] a c(2)
  obtain s6 where s6: "play s (map (\<lambda>q. (col, q)) ps) = Inr s6" "wf_board (board s6)"
    "filled_from (board s6) (nat col) 6" by auto
  from s6(3) have full: "column_full (board s6) (nat col)"
    by (simp add: filled_from_def column_full_iff)
  then have "board s6 ! 0 ! nat col \<noteq> '' ''" by (simp add: column_full_iff)
  then have "nat col \<notin> set (get_possible_moves s6)" by (simp add: get_possible_moves_def)
  moreover from make_move_full [OF s6(2) c(1) full, of p] c(2)
  have "make_move s6 col p = Inr \<lparr>board = board s6, player = other p\<rparr>" by simp
  ultimately show "\<exists>s6. play s (map (\<lambda>q. (col, q)) ps) = Inr s6
            \<and> nat col \<notin> set (get_possible_moves s6)
            \<and> make_move s6 col p = Inr \<lparr>board = board s6, player = other p\<rparr>"
    using s6(1) by blast
qed

theorem make_move_errors_witness:
  "wf_board (board init_state)
   \<and> make_move init_state 7 ''X'' = Inl IndexError
   \<and> make_move init_state (- 1) ''X'' = make_move init_state 6 ''X''
   \<and> (\<exists>s'. make_move init_state 3 ''X'' = Inr s' \<and> wf_board (board s'))
   \<and> (\<exists>s6. play init_state (map (\<lambda>q. (0, q)) [''X'', ''O'', ''X'', ''O'', ''X'', ''O'']) = Inr s6
            \<and> nat 0 \<notin> set (get_possible_moves s6)
            \<and> make_move s6 0 ''O'' = Inr \<lparr>board = board s6, player = other ''O''\<rparr>)"
  using make_move_errors [OF init_wf, of 7 "''X''" "[]"]
    make_move_errors [OF init_wf, of "- 1" "''X''" "[]"]
    make_move_errors [OF init_wf, of 3 "''X''" "[]"]
    make_move_errors [OF init_wf, of 0 "''O''" "[''X'', ''O'', ''X'', ''O'', ''X'', ''O'']"]
    init_wf
  by simp

text \<open>
  Claim C7: for a column listed by \<open>get_possible_moves\<close>, \<open>make_move\<close> returns a new
  object whose grid is the receiver's with the mark written at the lowest blank row of
  the column and nothing else changed, and whose \<open>player\<close> is the opponent of the mark
  played; every object that existed before the call, the receiver among them, is as it
  was.
\<close>

theorem make_move_legal:
  assumes v: "valid_obj st ob" and wf: "wf_board (board (view st ob))"
    and c: "c \<in> set (get_possible_moves (view st ob))"
  shows "\<exists>st' ob' r. make_move_obj st ob (int c) p = Inr (st', ob')
      \<and> r < 6 \<and> board (view st ob) ! r ! c = '' ''
      \<and> (\<forall>r'. r < r' \<and> r' < 6 \<longrightarrow> board (view st ob) ! r' ! c \<noteq> '' '')
      \<and> board (view st' ob') = (board (view st ob))[r := (board (view st ob) ! r)[c := p]]
      \<and> player (view st' ob') = (if p = ''X'' then ''O'' else ''X'')
      \<and> view st' ob = view st ob \<and> take (length st) st' = st"
proof -
  let ?b = "board (view st ob)"
  from c have c7: "c < 7" and top: "?b ! 0 ! c = '' ''"
    by (simp_all add: get_possible_moves_def)
  from top have "landing_row ?b c \<noteq> None"
    unfolding landing_row_None by (metis zero_less_numeral)
  then obtain r where r: "landing_row ?b c = Some r" by blast
  with make_move_in_range [OF wf c7, of p]
  have mv: "make_move (view st ob) (int c) p =
      Inr \<lparr>board = ?b[r := (?b ! r)[c := p]], player = other p\<rparr>" by simp
  with make_move_obj_refines [OF v, of "int c" p]
  obtain st' ob' where o: "make_move_obj st ob (int c) p = Inr (st', ob')"
    "view st' ob' = \<lparr>board = ?b[r := (?b ! r)[c := p]], player = other p\<rparr>"
    "take (length st) st' = st"
    by (cases "make_move_obj st ob (int c) p") auto
  from view_unchanged [OF v o(3)] have "view st' ob = view st ob" .
  with o r show ?thesis
    by (intro exI [of _ st'] exI [of _ ob'] exI [of _ r]) (simp add: landing_row_Some other_def)
qed

text \<open>
  Claim C10: for a full column in \<open>0 .. 6\<close>, \<open>make_move\<close> raises nothing and returns a
  new object with the receiver's grid, cell for cell, and \<open>player\<close> set to the opponent
  of the mark played; the receiver is as it was.
\<close>

theorem make_move_full_column:
  assumes v: "valid_obj st ob" and wf: "wf_board (board (view st ob))" and c: "c < 7"
    and full: "column_full (board (view st ob)) c
       \<or> (gravity (board (view st ob)) \<and> board (view st ob) ! 0 ! c \<noteq> '' '')"
  shows "\<exists>st' ob'. make_move_obj st ob (int c) p = Inr (st', ob')
      \<and> board (view st' ob') = board (view st ob)
      \<and> player (view st' ob') = (if p = ''X'' then ''O'' else ''X'')
      \<and> view st' ob = view st ob \<and> take (length st) st' = st"
proof -
  from full c have "column_full (board (view st ob)) c" by (auto intro: gravity_top_full)
  from make_move_full [OF wf c this, of p] make_move_obj_refines [OF v, of "int c" p]
  obtain st' ob' where o: "make_move_obj st ob (int c) p = Inr (st', ob')"
    "view st' ob' = \<lparr>board = board (view st ob), player = other p\<rparr>"
    "take (length st) st' = st"
    by (cases "make_move_obj st ob (int c) p") auto
  from view_unchanged [OF v o(3)] have "view st' ob = view st ob" .
  with o show ?thesis by (simp add: other_def)
qed


theorem make_move_legal_witness:
  "valid_obj (board init_state) init_obj
   \<and> wf_board (board (view (board init_state) init_obj))
   \<and> 3 \<in> set (get_possible_moves (view (board init_state) init_obj))
   \<and> (\<exists>st' ob' r. make_move_obj (board init_state) init_obj (int 3) ''X'' = Inr (st', ob')
      \<and> r < 6 \<and> board (view (board init_state) init_obj) ! r ! 3 = '' ''
      \<and> (\<forall>r'. r < r' \<and> r' < 6 \<longrightarrow> board (view (board init_state) init_obj) ! r' ! 3 \<noteq> '' '')
      \<and> board (view st' ob') = (board (view (board init_state) init_obj))
            [r := (board (view (board init_state) init_obj) ! r)[3 := ''X'']]
      \<and> player (view st' ob') = (if ''X'' = ''X'' then ''O'' else ''X'')
      \<and> view st' init_obj = view (board init_state) init_obj
      \<and> take (length (board init_state)) st' = board init_state)"
proof -
  have v: "valid_obj (board init_state) init_obj" by code_simp
  have wf: "wf_board (board (view (board init_state) init_obj))" by code_simp
  have c: "3 \<in> set (get_possible_moves (view (board init_state) init_obj))" by code_simp
  from make_move_legal [OF v wf c, of "''X''"] v wf c show ?thesis by blast
qed

theorem make_move_full_column_witness:
  "valid_obj (board column0_full) column0_full_obj
   \<and> wf_board (board (view (board column0_full) column0_full_obj))
   \<and> (0::nat) < 7
   \<and> (column_full (board (view (board column0_full) column0_full_obj)) 0
       \<or> gravity (board (view (board column0_full) column0_full_obj))
          \<and> board (view (board column0_full) column0_full_obj) ! 0 ! 0 \<noteq> '' '')
   \<and> (\<exists>st' ob'. make_move_obj (board column0_full) column0_full_obj (int 0) ''O'' = Inr (st', ob')
      \<and> board (view st' ob') = board (view (board column0_full) column0_full_obj)
      \<and> player (view st' ob') = (if ''O'' = ''X'' then ''O'' else ''X'')
      \<and> view st' column0_full_obj = view (board column0_full) column0_full_obj
      \<and> take (length (board column0_full)) st' = board column0_full)"
proof -
  have v: "valid_obj (board column0_full) column0_full_obj" by code_simp
  have wf: "wf_board (board (view (board column0_full) column0_full_obj))" by code_simp
  have c: "(0::nat) < 7" by simp
  have f: "column_full (board (view (board column0_full) column0_full_obj)) 0
       \<or> gravity (board (view (board column0_full) column0_full_obj))
          \<and> board (view (board column0_full) column0_full_obj) ! 0 ! 0 \<noteq> '' ''" by code_simp
  from make_move_full_column [OF v wf c f, of "''O''"] v wf c f show ?thesis by blast
qed

section \<open>The scans of \<open>is_terminal\<close> and \<open>evaluate\<close> find the lines of the board\<close>

lemma upt4: "[0..<4] = [0, 1, 2, 3::nat]"
  by code_simp

lemma horizontal_line: "line_won b (line_from (int r, int c) (0, 1)) \<longleftrightarrow> horizontal b (r, c)"
  by (simp add: line_won_def line_from_def cell_def horizontal_def upt4 nat_add_distrib)

lemma vertical_line: "line_won b (line_from (int r, int c) (1, 0)) \<longleftrightarrow> vertical b (r, c)"
  by (simp add: line_won_def line_from_def cell_def vertical_def upt4 nat_add_distrib)

lemma diag_pos_line: "line_won b (line_from (int r, int c) (1, 1)) \<longleftrightarrow> diag_pos b (r, c)"
  by (simp add: line_won_def line_from_def cell_def diag_pos_def upt4 nat_add_distrib)

lemma diag_neg_line: "line_won b (line_from (int r, int c) (1, - 1)) \<longleftrightarrow> diag_neg b (r, c)"
  by (simp add: line_won_def line_from_def cell_def diag_neg_def upt4 nat_add_distrib nat_diff_distrib')

lemma line_from_hd: "cell b (hd (line_from (int r, int c) d)) = b ! r ! c"
  by (cases d) (simp add: line_from_def cell_def)

lemma on_board_right: "list_all on_board (line_from (int r, int c) (0, 1)) \<longleftrightarrow> r < 6 \<and> c < 4"
  by (auto simp: line_from_def on_board_def)

lemma on_board_down: "list_all on_board (line_from (int r, int c) (1, 0)) \<longleftrightarrow> r < 3 \<and> c < 7"
  by (auto simp: line_from_def on_board_def)

lemma on_board_down_right: "list_all on_board (line_from (int r, int c) (1, 1)) \<longleftrightarrow> r < 3 \<and> c < 4"
  by (auto simp: line_from_def on_board_def)

lemma on_board_down_left: "list_all on_board (line_from (int r, int c) (1, - 1)) \<longleftrightarrow> r < 3 \<and> 3 \<le> c \<and> c < 7"
  by (auto simp: line_from_def on_board_def)

lemma lines_iff:
  "l \<in> set lines \<longleftrightarrow>
     (\<exists>r c. r < 6 \<and> c < 4 \<and> l = line_from (int r, int c) (0, 1))
   \<or> (\<exists>r c. r < 3 \<and> c < 7 \<and> l = line_from (int r, int c) (1, 0))
   \<or> (\<exists>r c. r < 3 \<and> c < 4 \<and> l = line_from (int r, int c) (1, 1))
   \<or> (\<exists>r c. r < 3 \<and> 3 \<le> c \<and> c < 7 \<and> l = line_from (int r, int c) (1, - 1))"
  (is "?L \<longleftrightarrow> ?R")
proof
  assume ?L
  then obtain r c d where rc: "r < 6" "c < 7" and d: "d \<in> set directions"
    and l: "l = line_from (int r, int c) d" and ob: "list_all on_board l"
    by (auto simp: lines_def)
  from d consider "d = (0, 1)" | "d = (1, 0)" | "d = (1, 1)" | "d = (1, - 1)"
    by (auto simp: directions_def)
  then show ?R
  proof cases
    case 1 with l ob show ?thesis by (auto simp: on_board_right)
  next
    case 2 with l ob show ?thesis by (auto simp: on_board_down)
  next
    case 3 with l ob show ?thesis by (auto simp: on_board_down_right)
  next
    case 4 with l ob show ?thesis by (auto simp: on_board_down_left)
  qed
next
  assume ?R
  then consider r c where "r < 6" "c < 4" "l = line_from (int r, int c) (0, 1)"
    | r c where "r < 3" "c < 7" "l = line_from (int r, int c) (1, 0)"
    | r c where "r < 3" "c < 4" "l = line_from (int r, int c) (1, 1)"
    | r c where "r < 3" "3 \<le> c" "c < 7" "l = line_from (int r, int c) (1, - 1)"
    by blast
  then show ?L
  proof cases
    case 1
    then have "list_all on_board l" "r < 6" "c < 7" by (simp_all add: on_board_right)
    with 1 show ?thesis by (force simp: lines_def directions_def)
  next
    case 2
    then have "list_all on_board l" "r < 6" "c < 7" by (simp_all add: on_board_down)
    with 2 show ?thesis by (force simp: lines_def directions_def)
  next
    case 3
    then have "list_all on_board l" "r < 6" "c < 7" by (simp_all add: on_board_down_right)
    with 3 show ?thesis by (force simp: lines_def directions_def)
  next
    case 4
    then have "list_all on_board l" "r < 6" "c < 7" by (simp_all add: on_board_down_left)
    with 4 show ?thesis by (force simp: lines_def directions_def)
  qed
qed

lemma four_in_row_line: "four_in_row b m \<longleftrightarrow> (\<exists>l \<in> set lines. line_won b l \<and> cell b (hd l) = m)"
  by (auto simp: four_in_row_def wins_def)

lemma mem_windows:
  "(r, c) \<in> set (List.product [0..<6] [0..<4]) \<longleftrightarrow> r < 6 \<and> c < 4"
  "(r, c) \<in> set (List.product [0..<3] [0..<7]) \<longleftrightarrow> r < 3 \<and> c < 7"
  "(r, c) \<in> set (List.product [0..<3] [0..<4]) \<longleftrightarrow> r < 3 \<and> c < 4"
  "(r, c) \<in> set (List.product [0..<3] [3..<7]) \<longleftrightarrow> r < 3 \<and> 3 \<le> c \<and> c < 7"
  unfolding set_product set_upt by auto

lemma four_in_row_iff:
  "four_in_row b m \<longleftrightarrow>
     (\<exists>r c. r < 6 \<and> c < 4 \<and> horizontal b (r, c) \<and> b ! r ! c = m)
   \<or> (\<exists>r c. r < 3 \<and> c < 7 \<and> vertical b (r, c) \<and> b ! r ! c = m)
   \<or> (\<exists>r c. r < 3 \<and> c < 4 \<and> diag_pos b (r, c) \<and> b ! r ! c = m)
   \<or> (\<exists>r c. r < 3 \<and> 3 \<le> c \<and> c < 7 \<and> diag_neg b (r, c) \<and> b ! r ! c = m)"
  (is "?L \<longleftrightarrow> ?H \<or> ?V \<or> ?P \<or> ?N")
proof
  assume ?L
  then obtain l where l: "l \<in> set lines" "line_won b l" "cell b (hd l) = m"
    by (auto simp: four_in_row_line)
  from l(1) consider r c where "r < 6" "c < 4" "l = line_from (int r, int c) (0, 1)"
    | r c where "r < 3" "c < 7" "l = line_from (int r, int c) (1, 0)"
    | r c where "r < 3" "c < 4" "l = line_from (int r, int c) (1, 1)"
    | r c where "r < 3" "3 \<le> c" "c < 7" "l = line_from (int r, int c) (1, - 1)"
    unfolding lines_iff by blast
  then show "?H \<or> ?V \<or> ?P \<or> ?N"
  proof cases
    case 1 with l(2,3) have ?H by (auto simp: horizontal_line line_from_hd) then show ?thesis by blast
  next
    case 2 with l(2,3) have ?V by (auto simp: vertical_line line_from_hd) then show ?thesis by blast
  next
    case 3 with l(2,3) have ?P by (auto simp: diag_pos_line line_from_hd) then show ?thesis by blast
  next
    case 4 with l(2,3) have ?N by (auto simp: diag_neg_line line_from_hd) then show ?thesis by blast
  qed
next
  assume "?H \<or> ?V \<or> ?P \<or> ?N"
  then consider r c where "r < 6" "c < 4" "horizontal b (r, c)" "b ! r ! c = m"
    | r c where "r < 3" "c < 7" "vertical b (r, c)" "b ! r ! c = m"
    | r c where "r < 3" "c < 4" "diag_pos b (r, c)" "b ! r ! c = m"
    | r c where "r < 3" "3 \<le> c" "c < 7" "diag_neg b (r, c)" "b ! r ! c = m"
    by blast
  then show ?L
  proof cases
    case 1
    then have "line_from (int r, int c) (0, 1) \<in> set lines" unfolding lines_iff by blast
    with 1 show ?thesis unfolding four_in_row_line
      by (intro bexI [of _ "line_from (int r, int c) (0, 1)"]) (simp_all add: horizontal_line line_from_hd)
  next
    case 2
    then have "line_from (int r, int c) (1, 0) \<in> set lines" unfolding lines_iff by blast
    with 2 show ?thesis unfolding four_in_row_line
      by (intro bexI [of _ "line_from (int r, int c) (1, 0)"]) (simp_all add: vertical_line line_from_hd)
  next
    case 3
    then have "line_from (int r, int c) (1, 1) \<in> set lines" unfolding lines_iff by blast
    with 3 show ?thesis unfolding four_in_row_line
      by (intro bexI [of _ "line_from (int r, int c) (1, 1)"]) (simp_all add: diag_pos_line line_from_hd)
  next
    case 4
    then have "line_from (int r, int c) (1, - 1) \<in> set lines" unfolding lines_iff by blast
    with 4 show ?thesis unfolding four_in_row_line
      by (intro bexI [of _ "line_from (int r, int c) (1, - 1)"]) (simp_all add: diag_neg_line line_from_hd)
  qed
qed

definition first_hit :: "string list list \<Rightarrow> (nat \<times> nat) option" where
  "first_hit b =
     (case find (horizontal b) (List.product [0..<6] [0..<4]) of
        Some w \<Rightarrow> Some w
      | None \<Rightarrow>
      (case find (vertical b) (List.product [0..<3] [0..<7]) of
        Some w \<Rightarrow> Some w
      | None \<Rightarrow>
      (case find (diag_pos b) (List.product [0..<3] [0..<4]) of
        Some w \<Rightarrow> Some w
      | None \<Rightarrow> find (diag_neg b) (List.product [0..<3] [3..<7]))))"

lemma evaluate_first_hit:
  "evaluate s = (case first_hit (board s) of Some w \<Rightarrow> win_value (board s) w | None \<Rightarrow> 0)"
  by (simp add: evaluate_def first_hit_def Let_def split: option.splits)

lemma list_ex_find: "list_ex P xs \<longleftrightarrow> find P xs \<noteq> None"
  by (auto simp: list_ex_iff find_None_iff)

lemma is_terminal_first_hit:
  "is_terminal s \<longleftrightarrow> first_hit (board s) \<noteq> None \<or> list_all (\<lambda>col. board s ! 0 ! col \<noteq> '' '') [0..<7]"
  by (auto simp: is_terminal_def first_hit_def Let_def list_ex_find split: option.splits)

lemma find_SomeD: "find P xs = Some x \<Longrightarrow> P x \<and> x \<in> set xs"
  by (auto simp: find_Some_iff)

lemma first_hit_Some:
  assumes "first_hit b = Some (r, c)"
  shows "four_in_row b (b ! r ! c)"
proof -
  from assms consider
      "horizontal b (r, c)" "(r, c) \<in> set (List.product [0..<6] [0..<4])"
    | "vertical b (r, c)" "(r, c) \<in> set (List.product [0..<3] [0..<7])"
    | "diag_pos b (r, c)" "(r, c) \<in> set (List.product [0..<3] [0..<4])"
    | "diag_neg b (r, c)" "(r, c) \<in> set (List.product [0..<3] [3..<7])"
    by (auto simp del: upt_rec_numeral simp: first_hit_def split: option.splits dest!: find_SomeD)
  then show ?thesis
    by cases (auto simp del: upt_rec_numeral simp: four_in_row_iff mem_windows)
qed

lemma first_hit_None: "first_hit b = None \<longleftrightarrow> (\<forall>m. \<not> four_in_row b m)"
proof
  assume "first_hit b = None"
  then have "\<forall>w \<in> set (List.product [0..<6] [0..<4]). \<not> horizontal b w"
    "\<forall>w \<in> set (List.product [0..<3] [0..<7]). \<not> vertical b w"
    "\<forall>w \<in> set (List.product [0..<3] [0..<4]). \<not> diag_pos b w"
    "\<forall>w \<in> set (List.product [0..<3] [3..<7]). \<not> diag_neg b w"
    by (simp_all del: upt_rec_numeral add: first_hit_def find_None_iff split: option.splits)
  then have "\<forall>r c. r < 6 \<and> c < 4 \<longrightarrow> \<not> horizontal b (r, c)"
    "\<forall>r c. r < 3 \<and> c < 7 \<longrightarrow> \<not> vertical b (r, c)"
    "\<forall>r c. r < 3 \<and> c < 4 \<longrightarrow> \<not> diag_pos b (r, c)"
    "\<forall>r c. r < 3 \<and> 3 \<le> c \<and> c < 7 \<longrightarrow> \<not> diag_neg b (r, c)"
    using mem_windows by blast+
  then show "\<forall>m. \<not> four_in_row b m"
    unfolding four_in_row_iff by blast
next
  assume n: "\<forall>m. \<not> four_in_row b m"
  show "first_hit b = None"
  proof (cases "first_hit b")
    case None
    then show ?thesis .
  next
    case (Some w)
    then have "four_in_row b (b ! fst w ! snd w)" using first_hit_Some [of b "fst w" "snd w"] by simp
    with n show ?thesis by blast
  qed
qed

lemma no_four_wins: "(\<forall>m. \<not> four_in_row b m) \<longleftrightarrow> wins b = []"
  by (cases "wins b") (auto simp: four_in_row_def)

lemma evaluate_cases:
  "(evaluate s = 1 \<and> four_in_row (board s) ''X'')
   \<or> (evaluate s = - 1 \<and> (\<exists>m. m \<noteq> ''X'' \<and> four_in_row (board s) m))
   \<or> (evaluate s = 0 \<and> wins (board s) = [])"
proof (cases "first_hit (board s)")
  case None
  then show ?thesis using first_hit_None [of "board s"]
    by (simp add: evaluate_first_hit no_four_wins)
next
  case (Some w)
  obtain r c where w: "w = (r, c)" by (cases w)
  with Some first_hit_Some [of "board s" r c]
  have "four_in_row (board s) (board s ! r ! c)" by simp
  then show ?thesis using Some w
    by (cases "board s ! r ! c = ''X''") (auto simp: evaluate_first_hit win_value_def)
qed

lemma four_in_row_terminal: "four_in_row (board s) m \<Longrightarrow> is_terminal s"
  using first_hit_None [of "board s"] by (auto simp: is_terminal_first_hit)

lemma board_full_terminal: "board_full (board s) \<Longrightarrow> is_terminal s"
  by (auto simp: is_terminal_first_hit board_full_def list_all_iff)

text \<open>\<open>evaluate\<close> reports the first won line of the scan.\<close>

lemma scan_lines_windows:
  "scan_lines =
     map (\<lambda>(r, c). line_from (int r, int c) (0, 1)) (List.product [0..<6] [0..<4])
   @ map (\<lambda>(r, c). line_from (int r, int c) (1, 0)) (List.product [0..<3] [0..<7])
   @ map (\<lambda>(r, c). line_from (int r, int c) (1, 1)) (List.product [0..<3] [0..<4])
   @ map (\<lambda>(r, c). line_from (int r, int c) (1, - 1)) (List.product [0..<3] [3..<7])"
  by code_simp

lemma scan_lines_set: "set scan_lines = set lines"
  by code_simp

lemma find_map_option: "find P (map f xs) = map_option f (find (P \<circ> f) xs)"
  by (induction xs) simp_all

lemma find_append_case:
  "find P (xs @ ys) = (case find P xs of None \<Rightarrow> find P ys | Some x \<Rightarrow> Some x)"
  by (induction xs) simp_all

lemma line_won_windows:
  "line_won b \<circ> (\<lambda>(r, c). line_from (int r, int c) (0, 1)) = horizontal b"
  "line_won b \<circ> (\<lambda>(r, c). line_from (int r, int c) (1, 0)) = vertical b"
  "line_won b \<circ> (\<lambda>(r, c). line_from (int r, int c) (1, 1)) = diag_pos b"
  "line_won b \<circ> (\<lambda>(r, c). line_from (int r, int c) (1, - 1)) = diag_neg b"
  by (auto simp: fun_eq_iff horizontal_line vertical_line diag_pos_line diag_neg_line)

lemma evaluate_scan:
  "evaluate s = (case find (line_won (board s)) scan_lines of
       None \<Rightarrow> 0
     | Some l \<Rightarrow> if cell (board s) (hd l) = ''X'' then 1 else - 1)"
  unfolding scan_lines_windows find_append_case find_map_option line_won_windows
    evaluate_def Let_def
  by (auto simp del: upt_rec_numeral simp: win_value_def line_from_hd split: option.splits)


lemma is_terminal_iff:
  "is_terminal s \<longleftrightarrow>
     wins (board s) \<noteq> [] \<or> list_all (\<lambda>col. board s ! 0 ! col \<noteq> '' '') [0..<7]"
  using first_hit_None [of "board s"] no_four_wins [of "board s"]
  by (auto simp del: upt_rec_numeral simp: is_terminal_first_hit)

section \<open>Wins and draws: claim C6\<close>

text \<open>
  Claim C6 as stated fails where both marks have a line: \<open>evaluate\<close> reports the line
  its scan meets first. Eight calls of \<open>make_move\<close> from the empty board give a board
  with four \<open>'O'\<close> on the bottom row, for which the claim asks \<open>-1\<close>, and \<open>evaluate\<close> is
  \<open>1\<close>, for the four \<open>'X'\<close> above them.
\<close>

theorem evaluate_both_lines_counterexample:
  "play init_state [(0, ''O''), (0, ''X''), (1, ''O''), (1, ''X''),
      (2, ''O''), (2, ''X''), (3, ''O''), (3, ''X'')] = Inr both_lines
   \<and> four_in_row (board both_lines) ''O'' \<and> evaluate both_lines = 1"
  by code_simp

text \<open>
  Claim C6, amended: on a board with four in a row of some mark, \<open>is_terminal\<close> is true
  and \<open>evaluate\<close> is \<open>1\<close> or \<open>-1\<close>; it is \<open>1\<close> when \<open>'X'\<close> has a line and no other mark has
  one, and \<open>-1\<close> when \<open>'O'\<close> has a line and \<open>'X'\<close> has none. When several marks have a
  line, \<open>evaluate\<close> reports the line its scan meets first: it is \<open>1\<close> when the first won
  line of \<open>scan_lines\<close> holds \<open>'X'\<close>, \<open>-1\<close> when it holds another mark, and \<open>0\<close> when no
  line is won. On a full board without a line \<open>is_terminal\<close> is true and \<open>evaluate\<close> is
  \<open>0\<close>, and \<open>evaluate\<close> is \<open>0\<close> on every board without a line. \<open>is_terminal\<close> is true
  exactly when some line is won or the top row has no blank.
\<close>

theorem terminal_and_evaluate:
  assumes "wf_board (board s)"
  shows "(four_in_row (board s) m \<longrightarrow> is_terminal s \<and> (evaluate s = 1 \<or> evaluate s = - 1))
   \<and> (four_in_row (board s) ''X'' \<and> list_all (\<lambda>m. m = ''X'') (wins (board s)) \<longrightarrow> evaluate s = 1)
   \<and> (four_in_row (board s) ''O'' \<and> \<not> four_in_row (board s) ''X'' \<longrightarrow> evaluate s = - 1)
   \<and> (board_full (board s) \<and> wins (board s) = [] \<longrightarrow> is_terminal s \<and> evaluate s = 0)
   \<and> (wins (board s) = [] \<longrightarrow> evaluate s = 0)
   \<and> evaluate s = (case find (line_won (board s)) scan_lines of
         None \<Rightarrow> 0
       | Some l \<Rightarrow> if cell (board s) (hd l) = ''X'' then 1 else - 1)
   \<and> (is_terminal s \<longleftrightarrow>
         wins (board s) \<noteq> [] \<or> list_all (\<lambda>col. board s ! 0 ! col \<noteq> '' '') [0..<7])"
proof -
  have other: "\<not> list_all (\<lambda>m. m = ''X'') (wins (board s))" if "m \<noteq> ''X''" "four_in_row (board s) m" for m
    using that by (auto simp: four_in_row_def list_all_iff)
  have none: "\<not> four_in_row (board s) m" if "wins (board s) = []" for m
    using that by (simp add: four_in_row_def)
  from evaluate_cases [of s] other none
  have "(four_in_row (board s) m \<longrightarrow> is_terminal s \<and> (evaluate s = 1 \<or> evaluate s = - 1))
   \<and> (four_in_row (board s) ''X'' \<and> list_all (\<lambda>m. m = ''X'') (wins (board s)) \<longrightarrow> evaluate s = 1)
   \<and> (four_in_row (board s) ''O'' \<and> \<not> four_in_row (board s) ''X'' \<longrightarrow> evaluate s = - 1)
   \<and> (board_full (board s) \<and> wins (board s) = [] \<longrightarrow> is_terminal s \<and> evaluate s = 0)
   \<and> (wins (board s) = [] \<longrightarrow> evaluate s = 0)"
    by (auto simp: four_in_row_terminal board_full_terminal)
  with evaluate_scan [of s] is_terminal_iff [of s] show ?thesis by blast
qed

theorem terminal_and_evaluate_witness:
  "wf_board (board x_bottom_row) \<and> four_in_row (board x_bottom_row) ''X''
   \<and> list_all (\<lambda>m. m = ''X'') (wins (board x_bottom_row))
   \<and> is_terminal x_bottom_row \<and> evaluate x_bottom_row = 1
   \<and> wf_board (board o_diagonal) \<and> four_in_row (board o_diagonal) ''O''
   \<and> \<not> four_in_row (board o_diagonal) ''X''
   \<and> is_terminal o_diagonal \<and> evaluate o_diagonal = - 1
   \<and> wf_board (board drawn_board) \<and> board_full (board drawn_board) \<and> wins (board drawn_board) = []
   \<and> is_terminal drawn_board \<and> evaluate drawn_board = 0
   \<and> wf_board (board init_state) \<and> wins (board init_state) = [] \<and> evaluate init_state = 0
   \<and> wf_board (board both_lines)
   \<and> four_in_row (board both_lines) ''X'' \<and> four_in_row (board both_lines) ''O''
   \<and> find (line_won (board both_lines)) scan_lines = Some [(4, 0), (4, 1), (4, 2), (4, 3)]
   \<and> cell (board both_lines) (hd [(4, 0), (4, 1), (4, 2), (4, 3)]) = ''X''
   \<and> is_terminal both_lines \<and> evaluate both_lines = 1"
proof -
  have x: "wf_board (board x_bottom_row)" "four_in_row (board x_bottom_row) ''X''"
    "list_all (\<lambda>m. m = ''X'') (wins (board x_bottom_row))" by code_simp+
  have o: "wf_board (board o_diagonal)" "four_in_row (board o_diagonal) ''O''"
    "\<not> four_in_row (board o_diagonal) ''X''" by code_simp+
  have d: "wf_board (board drawn_board)" "board_full (board drawn_board)"
    "wins (board drawn_board) = []" by code_simp+
  have i: "wf_board (board init_state)" "wins (board init_state) = []" by code_simp+
  have b: "wf_board (board both_lines)"
    "four_in_row (board both_lines) ''X''" "four_in_row (board both_lines) ''O''"
    "find (line_won (board both_lines)) scan_lines = Some [(4, 0), (4, 1), (4, 2), (4, 3)]"
    "cell (board both_lines) (hd [(4, 0), (4, 1), (4, 2), (4, 3)]) = ''X''" by code_simp+
  have 1: "is_terminal x_bottom_row \<and> evaluate x_bottom_row = 1"
    using terminal_and_evaluate [OF x(1), of "''X''"] x by blast
  have 2: "is_terminal o_diagonal \<and> evaluate o_diagonal = - 1"
    using terminal_and_evaluate [OF o(1), of "''O''"] o by blast
  have 3: "is_terminal drawn_board \<and> evaluate drawn_board = 0"
    using terminal_and_evaluate [OF d(1), of "''X''"] d by blast
  have 4: "evaluate init_state = 0"
    using terminal_and_evaluate [OF i(1), of "''X''"] i by blast
  have "evaluate both_lines = (case find (line_won (board both_lines)) scan_lines of
         None \<Rightarrow> 0
       | Some l \<Rightarrow> if cell (board both_lines) (hd l) = ''X'' then 1 else - 1)"
    using terminal_and_evaluate [OF b(1), of "''X''"] by blast
  then have 5: "evaluate both_lines = 1" unfolding b(4) using b(5) by simp
  have 6: "is_terminal both_lines"
    using terminal_and_evaluate [OF b(1), of "''X''"] b(2) by blast
  from x o d i b 1 2 3 4 5 6 show ?thesis by blast
qed

section \<open>Parent chains and \<open>backpropagate\<close>: claim C4\<close>

text \<open>What \<open>backpropagate\<close> does to the store, as a function of the chain it walks.\<close>

fun credit :: "heap \<Rightarrow> nat list \<Rightarrow> int \<Rightarrow> heap" where
  "credit h [] sc = h"
| "credit h (a # as) sc =
     credit (h[a := (h ! a)\<lparr>visits := visits (h ! a) + 1, score := score (h ! a) + sc\<rparr>]) as (- sc)"

lemma case_option_all: "(case x of None \<Rightarrow> True | Some p \<Rightarrow> Q p) \<longleftrightarrow> (\<forall>p. x = Some p \<longrightarrow> Q p)"
  by (cases x) auto

lemma heap_ok_iff:
  "heap_ok h \<longleftrightarrow> (\<forall>n<length h.
       (\<forall>c \<in> set (children (h ! n)). c < length h \<and> parent (h ! c) = Some n)
     \<and> distinct (children (h ! n))
     \<and> (\<forall>p. parent (h ! n) = Some p \<longrightarrow> p < n \<and> n \<in> set (children (h ! p)))
     \<and> wf_board (board (state (h ! n))))"
  unfolding heap_ok_def list_all_iff case_option_all by (simp add: Ball_def)

lemma heap_okD:
  assumes "heap_ok h" "n < length h"
  shows "c \<in> set (children (h ! n)) \<Longrightarrow> c < length h \<and> parent (h ! c) = Some n"
    and "distinct (children (h ! n))"
    and "parent (h ! n) = Some p \<Longrightarrow> p < n \<and> n \<in> set (children (h ! p))"
    and "wf_board (board (state (h ! n)))"
  using assms unfolding heap_ok_iff by blast+

lemma chain_le: "a \<in> set (chain h n) \<Longrightarrow> a \<le> n"
proof (induction h n rule: chain.induct)
  case (1 h n)
  from "1.prems" have "a = n \<or> (\<exists>p. parent (h ! n) = Some p \<and> p < n \<and> a \<in> set (chain h p))"
    by (subst (asm) chain.simps) (auto split: option.splits if_splits)
  with "1.IH" show ?case by fastforce
qed

lemma chain_distinct: "distinct (chain h n)"
proof (induction h n rule: chain.induct)
  case (1 h n)
  show ?case
    by (subst chain.simps) (use 1 in \<open>auto split: option.splits dest: chain_le\<close>)
qed

lemma chain_cong:
  "\<forall>i. parent (h' ! i) = parent (h ! i) \<Longrightarrow> chain h' n = chain h n"
proof (induction h n rule: chain.induct)
  case (1 h n)
  show ?case
    by (subst chain.simps, subst (2) chain.simps) (use 1 in \<open>auto split: option.splits\<close>)
qed

lemma parents_before_iff:
  "parents_before h \<longleftrightarrow> (\<forall>i<length h. \<forall>p. parent (h ! i) = Some p \<longrightarrow> p < i)"
  unfolding parents_before_def list_all_iff case_option_all by (simp add: Ball_def)

lemma heap_ok_parents_before: "heap_ok h \<Longrightarrow> parents_before h"
proof -
  assume ok: "heap_ok h"
  show ?thesis
    unfolding parents_before_iff
  proof (intro allI impI)
    fix i p assume "i < length h" "parent (h ! i) = Some p"
    with heap_okD(3) [OF ok] show "p < i" by blast
  qed
qed

lemma upd_field:
  assumes "\<And>x. f (g x) = f x"
  shows "f (h[a := g (h ! a)] ! i) = f (h ! i)"
proof (cases "i = a \<and> a < length h")
  case True
  then show ?thesis by (simp add: assms)
next
  case False
  then have "h[a := g (h ! a)] ! i = h ! i" by (cases "i = a") (auto simp: list_update_beyond)
  then show ?thesis by simp
qed

lemma bump_fields:
  "state (h[a := (h ! a)\<lparr>visits := v, score := s\<rparr>] ! i) = state (h ! i)"
  "node_player (h[a := (h ! a)\<lparr>visits := v, score := s\<rparr>] ! i) = node_player (h ! i)"
  "children (h[a := (h ! a)\<lparr>visits := v, score := s\<rparr>] ! i) = children (h ! i)"
  "parent (h[a := (h ! a)\<lparr>visits := v, score := s\<rparr>] ! i) = parent (h ! i)"
  using upd_field [of state "\<lambda>x. x\<lparr>visits := v, score := s\<rparr>" h a i]
    upd_field [of node_player "\<lambda>x. x\<lparr>visits := v, score := s\<rparr>" h a i]
    upd_field [of children "\<lambda>x. x\<lparr>visits := v, score := s\<rparr>" h a i]
    upd_field [of parent "\<lambda>x. x\<lparr>visits := v, score := s\<rparr>" h a i]
  by simp_all

lemma credit_length [simp]: "length (credit h as sc) = length h"
  by (induction as arbitrary: h sc) simp_all

lemma credit_state: "state (credit h as sc ! i) = state (h ! i)"
  by (induction as arbitrary: h sc) (simp_all add: bump_fields)

lemma credit_node_player: "node_player (credit h as sc ! i) = node_player (h ! i)"
  by (induction as arbitrary: h sc) (simp_all add: bump_fields)

lemma credit_children: "children (credit h as sc ! i) = children (h ! i)"
  by (induction as arbitrary: h sc) (simp_all add: bump_fields)

lemma credit_parent: "parent (credit h as sc ! i) = parent (h ! i)"
  by (induction as arbitrary: h sc) (simp_all add: bump_fields)

lemmas credit_fields = credit_state credit_node_player credit_children credit_parent

lemma credit_other: "i \<notin> set as \<Longrightarrow> credit h as sc ! i = h ! i"
  by (induction as arbitrary: h sc) auto

lemma credit_visits:
  "distinct as \<Longrightarrow> set as \<subseteq> {..<length h} \<Longrightarrow>
   visits (credit h as sc ! i) = visits (h ! i) + (if i \<in> set as then 1 else 0)"
proof (induction as arbitrary: h sc)
  case Nil
  then show ?case by simp
next
  case (Cons a as)
  let ?h = "h[a := (h ! a)\<lparr>visits := visits (h ! a) + 1, score := score (h ! a) + sc\<rparr>]"
  from Cons.prems have a: "a < length h" "a \<notin> set as" and as: "distinct as" "set as \<subseteq> {..<length ?h}"
    by auto
  have "visits (credit ?h as (- sc) ! i) = visits (?h ! i) + (if i \<in> set as then 1 else 0)"
    by (rule Cons.IH [OF as])
  moreover have "visits (?h ! i) = visits (h ! i) + (if i = a then 1 else 0)"
    using a(1) by (simp add: nth_list_update)
  ultimately show ?case using a(2) by auto
qed

lemma credit_score_head:
  "a \<notin> set as \<Longrightarrow> a < length h \<Longrightarrow> score (credit h (a # as) sc ! a) = score (h ! a) + sc"
  by (simp add: credit_other)

lemma credit_score_second:
  "distinct (a # p # as) \<Longrightarrow> p < length h \<Longrightarrow>
   score (credit h (a # p # as) sc ! p) = score (h ! p) - sc"
  by (simp add: credit_other)

lemma chain_hd: "n \<in> set (chain h n)"
  by (subst chain.simps) simp

lemma chain_step: "parent (h ! n) = Some p \<Longrightarrow> p < n \<Longrightarrow> chain h n = n # chain h p"
  by (subst chain.simps) simp

lemma chain_root: "parent (h ! n) = None \<Longrightarrow> chain h n = [n]"
  by (subst chain.simps) simp

lemma chain_below: "n < length h \<Longrightarrow> set (chain h n) \<subseteq> {..<length h}"
  using chain_le [of _ h n] by fastforce

lemma chain_parent_step:
  "chain h n = n # (case parent (h ! n) of None \<Rightarrow> [] | Some p \<Rightarrow> if p < n then chain h p else [])"
  by (rule chain.simps)

lemma backpropagate_chain:
  assumes "parents_before h" "n < length h"
  shows "backpropagate h n sc = Some (credit h (chain h n) sc)"
  using assms
proof (induction n arbitrary: h sc rule: less_induct)
  case (less n)
  let ?h = "h[n := (h ! n)\<lparr>visits := visits (h ! n) + 1, score := score (h ! n) + sc\<rparr>]"
  have par: "\<forall>i. parent (?h ! i) = parent (h ! i)"
    by (simp add: bump_fields)
  then have pb: "parents_before ?h"
    using less.prems(1) by (simp add: parents_before_iff)
  show ?case
  proof (cases "parent (h ! n)")
    case None
    with less.prems(2) show ?thesis
      by (subst backpropagate.simps) (simp add: chain_root)
  next
    case (Some p)
    with less.prems have p: "p < n" by (auto simp: parents_before_iff)
    have "backpropagate ?h p (- sc) = Some (credit ?h (chain ?h p) (- sc))"
      using less.IH [OF p pb, of "- sc"] less.prems(2) p by simp
    also have "chain ?h p = chain h p" using par by (rule chain_cong)
    finally show ?thesis using Some less.prems(2) p
      by (subst backpropagate.simps) (simp add: chain_step)
  qed
qed

text \<open>
  Claim C4: \<open>backpropagate(s)\<close> on a node \<open>n\<close> returns, adds 1 to the visits of \<open>n\<close> and
  \<open>s\<close> to its score, and, when \<open>n\<close> has a parent, is the call \<open>backpropagate(-s)\<close> on the
  parent in the store so updated; the parent's score changes by \<open>-s\<close>, the visits of \<open>n\<close>
  and of every ancestor grow by exactly 1, and nothing else in the store changes.
\<close>

theorem backpropagate_effect:
  assumes "parents_before h" "n < length h"
  shows "\<exists>h'. backpropagate h n sc = Some h' \<and> length h' = length h
     \<and> visits (h' ! n) = visits (h ! n) + 1 \<and> score (h' ! n) = score (h ! n) + sc
     \<and> (\<forall>p. parent (h ! n) = Some p \<longrightarrow>
           backpropagate h n sc = backpropagate
             (h[n := (h ! n)\<lparr>visits := visits (h ! n) + 1, score := score (h ! n) + sc\<rparr>]) p (- sc)
         \<and> score (h' ! p) = score (h ! p) - sc)
     \<and> (\<forall>a \<in> set (chain h n). visits (h' ! a) = visits (h ! a) + 1)
     \<and> (\<forall>a. a \<notin> set (chain h n) \<longrightarrow> h' ! a = h ! a)
     \<and> (\<forall>a. state (h' ! a) = state (h ! a) \<and> node_player (h' ! a) = node_player (h ! a)
            \<and> children (h' ! a) = children (h ! a) \<and> parent (h' ! a) = parent (h ! a))"
proof -
  let ?h' = "credit h (chain h n) sc"
  have bp: "backpropagate h n sc = Some ?h'" using assms by (rule backpropagate_chain)
  have d: "distinct (chain h n)" by (rule chain_distinct)
  have sub: "set (chain h n) \<subseteq> {..<length h}" using assms(2) by (rule chain_below)
  have v: "visits (?h' ! a) = visits (h ! a) + (if a \<in> set (chain h n) then 1 else 0)" for a
    using d sub by (rule credit_visits)
  have own: "score (?h' ! n) = score (h ! n) + sc"
  proof (cases "parent (h ! n)")
    case None
    then show ?thesis using assms(2) by (simp add: chain_root)
  next
    case (Some p)
    with assms have p: "p < n" by (auto simp: parents_before_iff)
    with Some have c: "chain h n = n # chain h p" by (simp add: chain_step)
    with d have "n \<notin> set (chain h p)" by simp
    with c assms(2) show ?thesis by (simp add: credit_other)
  qed
  have par: "score (?h' ! p) = score (h ! p) - sc
      \<and> backpropagate h n sc = backpropagate
             (h[n := (h ! n)\<lparr>visits := visits (h ! n) + 1, score := score (h ! n) + sc\<rparr>]) p (- sc)"
    if "parent (h ! n) = Some p" for p
  proof -
    from that assms have p: "p < n" by (auto simp: parents_before_iff)
    with that have c: "chain h n = n # chain h p" by (simp add: chain_step)
    obtain rest where r: "chain h p = p # rest"
      using chain_parent_step [of h p] by blast
    from d c r have "distinct (n # p # rest)" by simp
    moreover have "p < length h" using p assms(2) by simp
    ultimately have "score (credit h (n # p # rest) sc ! p) = score (h ! p) - sc"
      by (rule credit_score_second)
    moreover have "backpropagate h n sc = backpropagate
             (h[n := (h ! n)\<lparr>visits := visits (h ! n) + 1, score := score (h ! n) + sc\<rparr>]) p (- sc)"
      using that assms(2) by (subst backpropagate.simps) simp
    ultimately show ?thesis using c r by simp
  qed
  show ?thesis
    using bp own par v chain_hd [of n h]
    by (intro exI [of _ ?h']) (simp add: credit_other credit_fields)
qed

theorem backpropagate_effect_witness:
  "parents_before small_tree \<and> 2 < length small_tree
   \<and> (\<exists>h'. backpropagate small_tree 2 1 = Some h' \<and> length h' = length small_tree
     \<and> visits (h' ! 2) = visits (small_tree ! 2) + 1 \<and> score (h' ! 2) = score (small_tree ! 2) + 1
     \<and> (\<forall>p. parent (small_tree ! 2) = Some p \<longrightarrow>
           backpropagate small_tree 2 1 = backpropagate
             (small_tree[2 := (small_tree ! 2)\<lparr>visits := visits (small_tree ! 2) + 1,
                 score := score (small_tree ! 2) + 1\<rparr>]) p (- 1)
         \<and> score (h' ! p) = score (small_tree ! p) - 1)
     \<and> (\<forall>a \<in> set (chain small_tree 2). visits (h' ! a) = visits (small_tree ! a) + 1)
     \<and> (\<forall>a. a \<notin> set (chain small_tree 2) \<longrightarrow> h' ! a = small_tree ! a)
     \<and> (\<forall>a. state (h' ! a) = state (small_tree ! a) \<and> node_player (h' ! a) = node_player (small_tree ! a)
            \<and> children (h' ! a) = children (small_tree ! a) \<and> parent (h' ! a) = parent (small_tree ! a)))"
proof -
  have p: "parents_before small_tree" by code_simp
  have n: "2 < length small_tree" by code_simp
  from backpropagate_effect [OF p n, of 1] p n show ?thesis by blast
qed

section \<open>Selection: \<open>max\<close>, \<open>select_child\<close> and the descent\<close>

lemma max_from_first:
  "\<exists>i<length (best # xs). (best # xs) ! i = max_from key best xs
     \<and> (\<forall>j<i. key ((best # xs) ! j) < key (max_from key best xs))
     \<and> (\<forall>y \<in> set (best # xs). key y \<le> key (max_from key best xs))"
proof (induction xs arbitrary: best)
  case Nil
  then show ?case by simp
next
  case (Cons x xs)
  show ?case
  proof (cases "key best < key x")
    case True
    let ?r = "max_from key x xs"
    from Cons [of x] obtain i where i: "i < length (x # xs)" "(x # xs) ! i = ?r"
      "\<forall>j<i. key ((x # xs) ! j) < key ?r" "\<forall>y \<in> set (x # xs). key y \<le> key ?r" by blast
    from i(4) True have b: "key best < key ?r" by force
    have "\<forall>j<Suc i. key ((best # x # xs) ! j) < key ?r"
    proof (intro allI impI)
      fix j assume "j < Suc i"
      then show "key ((best # x # xs) ! j) < key ?r"
        using b i(3) by (cases j) auto
    qed
    moreover have "\<forall>y \<in> set (best # x # xs). key y \<le> key ?r"
      using b i(4) by auto
    ultimately show ?thesis using True i(1,2)
      by (intro exI [of _ "Suc i"]) simp
  next
    case False
    let ?r = "max_from key best xs"
    from Cons [of best] obtain i where i: "i < length (best # xs)" "(best # xs) ! i = ?r"
      "\<forall>j<i. key ((best # xs) ! j) < key ?r" "\<forall>y \<in> set (best # xs). key y \<le> key ?r" by blast
    from i(4) have b: "key best \<le> key ?r" by simp
    with False have x: "key x \<le> key ?r" by simp
    show ?thesis
    proof (cases i)
      case 0
      with i(2) False x i(4) show ?thesis
        by (intro exI [of _ 0]) auto
    next
      case (Suc i')
      with i(3) have b': "key best < key ?r" by auto
      with False have x': "key x < key ?r" by simp
      have "\<forall>j<Suc i. key ((best # x # xs) ! j) < key ?r"
      proof (intro allI impI)
        fix j assume j: "j < Suc i"
        show "key ((best # x # xs) ! j) < key ?r"
        proof (cases j)
          case 0
          then show ?thesis using b' by simp
        next
          case (Suc j')
          then show ?thesis
          proof (cases j')
            case 0
            with Suc x' show ?thesis by simp
          next
            case (Suc j'')
            with \<open>j = Suc j'\<close> j have "j' < i" by simp
            with i(3) have "key ((best # xs) ! j') < key ?r" by blast
            with Suc \<open>j = Suc j'\<close> show ?thesis by simp
          qed
        qed
      qed
      moreover have "\<forall>y \<in> set (best # x # xs). key y \<le> key ?r"
        using x i(4) by auto
      moreover have "(best # x # xs) ! Suc i = ?r" using i(2) Suc by simp
      ultimately show ?thesis using False i(1)
        by (intro exI [of _ "Suc i"]) simp
    qed
  qed
qed

lemma py_max_first:
  assumes "xs \<noteq> []"
  shows "\<exists>x i. py_max key xs = Inr x \<and> i < length xs \<and> xs ! i = x
     \<and> (\<forall>j<i. key (xs ! j) < key x) \<and> (\<forall>y \<in> set xs. key y \<le> key x)"
proof -
  from assms obtain a rest where xs: "xs = a # rest" by (cases xs) auto
  from max_from_first [of a rest key] show ?thesis
    unfolding xs py_max_def by auto
qed

lemma py_max_empty: "py_max key [] = Inl ValueError"
  by (simp add: py_max_def)

lemma select_child_mem:
  assumes "children (h ! n) \<noteq> []"
  shows "\<exists>c. select_child ucb h n = Inr c \<and> c \<in> set (children (h ! n))"
proof -
  let ?key = "\<lambda>c. ucb (sum_list (map (\<lambda>child. visits (h ! child)) (children (h ! n))))
     (score (h ! c)) (visits (h ! c))"
  from py_max_first [OF assms, of ?key]
  obtain x i where "py_max ?key (children (h ! n)) = Inr x" "i < length (children (h ! n))"
    "children (h ! n) ! i = x" by blast
  then have "select_child ucb h n = Inr x" "x \<in> set (children (h ! n))"
    by (auto simp: select_child_def Let_def)
  then show ?thesis by blast
qed

lemma chain_parent_closed:
  "a \<in> set (chain h v) \<Longrightarrow> parent (h ! a) = Some p \<Longrightarrow> p < a \<Longrightarrow> p \<in> set (chain h v)"
proof (induction h v rule: chain.induct)
  case (1 h n)
  show ?case
  proof (cases "a = n")
    case True
    with 1 have "chain h n = n # chain h p" by (simp add: chain_step)
    then show ?thesis using chain_hd [of p h] by simp
  next
    case False
    have "a = n \<or> (\<exists>q. parent (h ! n) = Some q \<and> q < n \<and> a \<in> set (chain h q))"
      using "1.prems"(1) chain_parent_step [of h n] by (auto split: option.splits if_splits)
    with False obtain q where q: "parent (h ! n) = Some q" "q < n" "a \<in> set (chain h q)"
      by blast
    with "1.IH" [OF q(1,2)] "1.prems" have "p \<in> set (chain h q)" by simp
    with q show ?thesis by (simp add: chain_step)
  qed
qed

lemma select_leaf_reaches:
  assumes ok: "heap_ok h"
  shows "n < length h \<Longrightarrow>
    \<exists>leaf. select_leaf ucb h n = Some (Inr leaf) \<and> leaf < length h \<and> n \<in> set (chain h leaf)
      \<and> (children (h ! leaf) = [] \<or> is_terminal (state (h ! leaf)))
      \<and> (leaf = n \<longleftrightarrow> children (h ! n) = [] \<or> is_terminal (state (h ! n)))"
proof (induction "length h - n" arbitrary: n rule: less_induct)
  case less
  show ?case
  proof (cases "children (h ! n) \<noteq> [] \<and> \<not> is_terminal (state (h ! n))")
    case False
    then show ?thesis using less.prems chain_hd [of n h]
      by (subst select_leaf.simps) auto
  next
    case True
    then obtain c where c: "select_child ucb h n = Inr c" "c \<in> set (children (h ! n))"
      using select_child_mem by blast
    from heap_okD(1) [OF ok less.prems c(2)] have cl: "c < length h" and cp: "parent (h ! c) = Some n"
      by simp_all
    from heap_okD(3) [OF ok cl cp] have nc: "n < c" by simp
    then have "length h - c < length h - n" using cl by simp
    from less.hyps [OF this cl] obtain leaf where
      leaf: "select_leaf ucb h c = Some (Inr leaf)" "leaf < length h" "c \<in> set (chain h leaf)"
        "children (h ! leaf) = [] \<or> is_terminal (state (h ! leaf))" by blast
    from chain_parent_closed [OF leaf(3) cp nc] have "n \<in> set (chain h leaf)" .
    moreover from chain_le [OF leaf(3)] nc have "leaf \<noteq> n" by simp
    moreover have "select_leaf ucb h n = Some (Inr leaf)"
      using True c(1) leaf(1) by (subst select_leaf.simps) simp
    ultimately show ?thesis using leaf True by simp
  qed
qed

section \<open>Expansion: claim C5\<close>

definition move_result :: "connect4 \<Rightarrow> nat \<Rightarrow> string \<Rightarrow> connect4" where
  "move_result s c p =
     \<lparr>board = (case landing_row (board s) c of
                 None \<Rightarrow> board s
               | Some r \<Rightarrow> (board s)[r := (board s ! r)[c := p]]),
      player = other p\<rparr>"

lemma make_move_result:
  "wf_board (board s) \<Longrightarrow> c < 7 \<Longrightarrow> make_move s (int c) p = Inr (move_result s c p)"
  by (simp add: make_move_in_range move_result_def)

lemma move_result_wf: "wf_board (board s) \<Longrightarrow> wf_board (board (move_result s c p))"
  by (simp add: move_result_def wf_board_update split: option.splits)

definition new_children :: "heap \<Rightarrow> nat \<Rightarrow> nat list \<Rightarrow> node list" where
  "new_children h n moves =
     map (\<lambda>mv. Node (move_result (state (h ! n)) mv (node_player (h ! n)))
                  (other (node_player (h ! n))) (Some n)) moves"

lemma expand_loop_result:
  assumes "n < length h" "wf_board (board (state (h ! n)))" "\<forall>mv \<in> set moves. mv < 7"
  shows "expand_loop h n moves =
     Inr (h[n := (h ! n)\<lparr>children := children (h ! n) @ [length h ..< length h + length moves]\<rparr>]
          @ new_children h n moves)"
  using assms
proof (induction moves arbitrary: h)
  case Nil
  then show ?case by (simp add: new_children_def)
next
  case (Cons mv moves)
  let ?child = "Node (move_result (state (h ! n)) mv (node_player (h ! n)))
                  (other (node_player (h ! n))) (Some n)"
  let ?h1 = "h @ [?child]"
  let ?h2 = "?h1[n := (?h1 ! n)\<lparr>children := children (?h1 ! n) @ [length h]\<rparr>]"
  have mv: "make_move (state (h ! n)) (int mv) (node_player (h ! n))
      = Inr (move_result (state (h ! n)) mv (node_player (h ! n)))"
    using Cons.prems by (simp add: make_move_result)
  have h2: "?h2 = h[n := (h ! n)\<lparr>children := children (h ! n) @ [length h]\<rparr>] @ [?child]"
    using Cons.prems(1) by (simp add: list_update_append1 nth_append)
  have n2: "?h2 ! n = (h ! n)\<lparr>children := children (h ! n) @ [length h]\<rparr>"
    using Cons.prems(1) by (simp add: h2 nth_append)
  have l2: "length ?h2 = Suc (length h)" by simp
  have st: "state (?h2 ! n) = state (h ! n)" "node_player (?h2 ! n) = node_player (h ! n)"
    by (simp_all add: n2)
  have "expand_loop ?h2 n moves =
     Inr (?h2[n := (?h2 ! n)\<lparr>children := children (?h2 ! n) @ [length ?h2 ..< length ?h2 + length moves]\<rparr>]
          @ new_children ?h2 n moves)"
  proof (rule Cons.IH)
    show "n < length ?h2" using Cons.prems(1) by simp
    show "wf_board (board (state (?h2 ! n)))" using Cons.prems(2) by (simp only: st)
    show "\<forall>mv \<in> set moves. mv < 7" using Cons.prems(3) by simp
  qed
  also have "new_children ?h2 n moves = new_children h n moves"
    by (simp add: new_children_def st)
  also have "?h2[n := (?h2 ! n)\<lparr>children := children (?h2 ! n) @ [length ?h2 ..< length ?h2 + length moves]\<rparr>]
      = h[n := (h ! n)\<lparr>children := children (h ! n) @ [length h ..< length h + length (mv # moves)]\<rparr>]
        @ [?child]"
  proof -
    have u: "[length h ..< length h + length (mv # moves)]
        = length h # [Suc (length h) ..< Suc (length h) + length moves]"
    proof -
      have "length h + length (mv # moves) = Suc (length h) + length moves" by simp
      moreover have "[length h ..< length h + length (mv # moves)]
          = length h # [Suc (length h) ..< length h + length (mv # moves)]"
        by (rule upt_conv_Cons) simp
      ultimately show ?thesis by (simp only:)
    qed
    show ?thesis
      unfolding n2 l2 u unfolding h2 using Cons.prems(1)
      by (simp add: list_update_append1)
  qed
  finally show ?case using mv
    by (simp add: Let_def new_children_def)
qed

definition expanded :: "heap \<Rightarrow> nat \<Rightarrow> heap" where
  "expanded h n =
     h[n := (h ! n)\<lparr>children := children (h ! n) @
         [length h ..< length h + length (get_possible_moves (state (h ! n)))]\<rparr>]
     @ new_children h n (get_possible_moves (state (h ! n)))"

lemma possible_moves_range: "mv \<in> set (get_possible_moves s) \<Longrightarrow> mv < 7"
  by (simp add: get_possible_moves_def)

lemma possible_moves_distinct: "distinct (get_possible_moves s)"
  by (simp add: get_possible_moves_def)

lemma expand_expanded:
  assumes "n < length h" "wf_board (board (state (h ! n)))"
  shows "expand h n = Inr (expanded h n, children (expanded h n ! n))"
proof -
  have "\<forall>mv \<in> set (get_possible_moves (state (h ! n))). mv < 7"
    by (simp add: possible_moves_range)
  from expand_loop_result [OF assms this] show ?thesis
    by (simp add: expand_def expanded_def)
qed

lemma expanded_length:
  "length (expanded h n) = length h + length (get_possible_moves (state (h ! n)))"
  by (simp add: expanded_def new_children_def)

lemma expanded_old: "i < length h \<Longrightarrow> i \<noteq> n \<Longrightarrow> expanded h n ! i = h ! i"
  by (simp add: expanded_def nth_append)

lemma expanded_node:
  "n < length h \<Longrightarrow> expanded h n ! n = (h ! n)\<lparr>children := children (h ! n) @
         [length h ..< length h + length (get_possible_moves (state (h ! n)))]\<rparr>"
  by (simp add: expanded_def nth_append)

lemma expanded_new:
  "j < length (get_possible_moves (state (h ! n))) \<Longrightarrow>
   expanded h n ! (length h + j) =
     Node (move_result (state (h ! n)) (get_possible_moves (state (h ! n)) ! j) (node_player (h ! n)))
          (other (node_player (h ! n))) (Some n)"
  by (simp add: expanded_def nth_append new_children_def)

text \<open>
  Claim C5: \<open>expand\<close> on a node without children returns the node's new children list:
  one new node per possible move of the node's state, in the order of
  \<open>get_possible_moves\<close> (which has no duplicates); the state of the \<open>j\<close>-th child is what
  \<open>make_move\<close> returns for the \<open>j\<close>-th move and the node's player, its player is the
  opponent, its parent is the node, and it starts without children, visits or score. No
  other node changes.
\<close>

theorem expand_children:
  assumes n: "n < length h" and wf: "wf_board (board (state (h ! n)))"
    and fresh: "children (h ! n) = []"
  shows "\<exists>h' cs. expand h n = Inr (h', cs) \<and> cs = children (h' ! n)
     \<and> length cs = length (get_possible_moves (state (h ! n))) \<and> distinct cs
     \<and> (\<forall>j<length cs.
           length h \<le> cs ! j \<and> cs ! j < length h'
         \<and> make_move (state (h ! n)) (int (get_possible_moves (state (h ! n)) ! j)) (node_player (h ! n))
             = Inr (state (h' ! (cs ! j)))
         \<and> node_player (h' ! (cs ! j)) = (if node_player (h ! n) = ''X'' then ''O'' else ''X'')
         \<and> parent (h' ! (cs ! j)) = Some n
         \<and> children (h' ! (cs ! j)) = [] \<and> visits (h' ! (cs ! j)) = 0 \<and> score (h' ! (cs ! j)) = 0)
     \<and> (\<forall>i<length h. i \<noteq> n \<longrightarrow> h' ! i = h ! i)
     \<and> h' ! n = (h ! n)\<lparr>children := cs\<rparr>"
proof -
  let ?moves = "get_possible_moves (state (h ! n))"
  let ?h' = "expanded h n"
  let ?cs = "[length h ..< length h + length ?moves]"
  have e: "expand h n = Inr (?h', children (?h' ! n))" using n wf by (rule expand_expanded)
  have c: "children (?h' ! n) = ?cs" using n fresh by (simp add: expanded_node)
  have new: "length h \<le> ?cs ! j \<and> ?cs ! j < length ?h'
         \<and> make_move (state (h ! n)) (int (?moves ! j)) (node_player (h ! n))
             = Inr (state (?h' ! (?cs ! j)))
         \<and> node_player (?h' ! (?cs ! j)) = (if node_player (h ! n) = ''X'' then ''O'' else ''X'')
         \<and> parent (?h' ! (?cs ! j)) = Some n
         \<and> children (?h' ! (?cs ! j)) = [] \<and> visits (?h' ! (?cs ! j)) = 0 \<and> score (?h' ! (?cs ! j)) = 0"
    if j: "j < length ?cs" for j
  proof -
    from j have j': "j < length ?moves" by simp
    then have "?moves ! j \<in> set ?moves" by (rule nth_mem)
    then have "?moves ! j < 7" by (rule possible_moves_range)
    from make_move_result [OF wf this, of "node_player (h ! n)"] j' show ?thesis
      by (simp add: expanded_new expanded_length Node_def other_def)
  qed
  show ?thesis
    using e c new n fresh
    by (intro exI [of _ ?h'] exI [of _ ?cs]) (simp add: expanded_old expanded_node)
qed

theorem expand_children_witness:
  "2 < length small_tree \<and> wf_board (board (state (small_tree ! 2)))
   \<and> children (small_tree ! 2) = []
   \<and> (\<exists>h' cs. expand small_tree 2 = Inr (h', cs) \<and> cs = children (h' ! 2)
     \<and> length cs = length (get_possible_moves (state (small_tree ! 2))) \<and> distinct cs
     \<and> (\<forall>j<length cs.
           length small_tree \<le> cs ! j \<and> cs ! j < length h'
         \<and> make_move (state (small_tree ! 2)) (int (get_possible_moves (state (small_tree ! 2)) ! j))
               (node_player (small_tree ! 2))
             = Inr (state (h' ! (cs ! j)))
         \<and> node_player (h' ! (cs ! j)) = (if node_player (small_tree ! 2) = ''X'' then ''O'' else ''X'')
         \<and> parent (h' ! (cs ! j)) = Some 2
         \<and> children (h' ! (cs ! j)) = [] \<and> visits (h' ! (cs ! j)) = 0 \<and> score (h' ! (cs ! j)) = 0)
     \<and> (\<forall>i<length small_tree. i \<noteq> 2 \<longrightarrow> h' ! i = small_tree ! i)
     \<and> h' ! 2 = (small_tree ! 2)\<lparr>children := cs\<rparr>)"
proof -
  have n: "2 < length small_tree" by code_simp
  have wf: "wf_board (board (state (small_tree ! 2)))" by code_simp
  have c: "children (small_tree ! 2) = []" by code_simp
  from expand_children [OF n wf c] n wf c show ?thesis by blast
qed

section \<open>Rollouts return\<close>

lemma not_terminal_moves: "\<not> is_terminal s \<Longrightarrow> get_possible_moves s \<noteq> []"
proof -
  assume "\<not> is_terminal s"
  then have "\<not> list_all (\<lambda>col. board s ! 0 ! col \<noteq> '' '') [0..<7]"
    by (simp add: is_terminal_first_hit)
  then obtain col where "col \<in> set [0..<7]" "board s ! 0 ! col = '' ''"
    unfolding list_all_iff by blast
  then have "col \<in> set (get_possible_moves s)" by (simp add: get_possible_moves_def)
  then show ?thesis by auto
qed

lemma copy_id: "copy s = s"
  by (simp add: copy_def)

lemma simulate_loop_returns:
  "wf_board (board st) \<Longrightarrow> \<exists>sc k'. simulate_loop rng k st p = Inr (sc, k')"
proof (induction rng k st p rule: simulate_loop.induct)
  case (1 rng k st p)
  show ?case
  proof (cases "is_terminal st")
    case True
    then show ?thesis by simp
  next
    case False
    then have ne: "get_possible_moves st \<noteq> []" by (rule not_terminal_moves)
    then obtain move where c: "choice (get_possible_moves st) (rng k) = Inr move"
      by (simp add: choice_def)
    then have "move \<in> set (get_possible_moves st)" by (rule choice_mem)
    then have "move < 7" by (rule possible_moves_range)
    with "1.prems" have mv: "make_move st (int move) p = Inr (move_result st move p)"
      by (simp add: make_move_result)
    have "wf_board (board (move_result st move p))" using "1.prems" by (rule move_result_wf)
    from "1.IH" [OF False c mv this] False c mv show ?thesis by simp
  qed
qed

lemma simulate_returns:
  "wf_board (board (state (h ! n))) \<Longrightarrow> \<exists>sc k'. simulate h n rng k = Inr (sc, k')"
  unfolding simulate_def copy_id by (rule simulate_loop_returns)

lemma simulate_terminal:
  "is_terminal (state (h ! n)) \<Longrightarrow> simulate h n rng k = Inr (evaluate (state (h ! n)), k)"
  by (simp add: simulate_def copy_id)

section \<open>An expansion keeps the tree well formed\<close>

lemma expanded_old_fields:
  assumes "i < length h" "n < length h"
  shows "state (expanded h n ! i) = state (h ! i)"
    and "node_player (expanded h n ! i) = node_player (h ! i)"
    and "parent (expanded h n ! i) = parent (h ! i)"
    and "visits (expanded h n ! i) = visits (h ! i)"
    and "score (expanded h n ! i) = score (h ! i)"
    and "i \<noteq> n \<Longrightarrow> children (expanded h n ! i) = children (h ! i)"
  using assms by (cases "i = n"; simp add: expanded_old expanded_node)+

lemma expanded_new_fields:
  assumes "j < length (get_possible_moves (state (h ! n)))"
  shows "state (expanded h n ! (length h + j)) =
      move_result (state (h ! n)) (get_possible_moves (state (h ! n)) ! j) (node_player (h ! n))"
    and "parent (expanded h n ! (length h + j)) = Some n"
    and "children (expanded h n ! (length h + j)) = []"
    and "visits (expanded h n ! (length h + j)) = 0"
  using assms by (simp_all add: expanded_new Node_def)

lemma expanded_heap_ok:
  assumes ok: "heap_ok h" and n: "n < length h" and fresh: "children (h ! n) = []"
  shows "heap_ok (expanded h n)"
  unfolding heap_ok_iff
proof (intro allI impI)
  let ?E = "expanded h n"
  let ?m = "length (get_possible_moves (state (h ! n)))"
  let ?new = "[length h ..< length h + ?m]"
  fix i assume i: "i < length ?E"
  have En: "children (?E ! n) = ?new" using n fresh by (simp add: expanded_node)
  have newpar: "parent (?E ! c) = Some n \<and> c < length ?E" if "c \<in> set ?new" for c
  proof -
    from that obtain j where "c = length h + j" "j < ?m"
      by (metis add_diff_inverse_nat atLeastLessThan_iff nat_add_left_cancel_less not_le set_upt)
    then show ?thesis by (simp add: expanded_new_fields expanded_length)
  qed
  consider (old) "i < length h" "i \<noteq> n" | (node) "i = n" | (new) "length h \<le> i"
    by linarith
  then show "(\<forall>c \<in> set (children (?E ! i)). c < length ?E \<and> parent (?E ! c) = Some i)
     \<and> distinct (children (?E ! i))
     \<and> (\<forall>p. parent (?E ! i) = Some p \<longrightarrow> p < i \<and> i \<in> set (children (?E ! p)))
     \<and> wf_board (board (state (?E ! i)))"
  proof cases
    case old
    have ch: "children (?E ! i) = children (h ! i)" using old n by (simp add: expanded_old)
    have 1: "c < length ?E \<and> parent (?E ! c) = Some i" if "c \<in> set (children (h ! i))" for c
    proof -
      from heap_okD(1) [OF ok old(1) that] have "c < length h" "parent (h ! c) = Some i" by simp_all
      then show ?thesis using n by (simp add: expanded_old_fields expanded_length)
    qed
    have 2: "p < i \<and> i \<in> set (children (?E ! p))" if "parent (h ! i) = Some p" for p
    proof -
      from heap_okD(3) [OF ok old(1) that] have p: "p < i" "i \<in> set (children (h ! p))" by simp_all
      with fresh have "p \<noteq> n" by auto
      with p old(1) n show ?thesis by (simp add: expanded_old)
    qed
    from 1 2 heap_okD(2,4) [OF ok old(1)] old n show ?thesis
      by (simp add: ch expanded_old)
  next
    case node
    have 2: "p < n \<and> n \<in> set (children (?E ! p))" if "parent (h ! n) = Some p" for p
    proof -
      from heap_okD(3) [OF ok n that] have p: "p < n" "n \<in> set (children (h ! p))" by simp_all
      with n show ?thesis by (simp add: expanded_old)
    qed
    from 2 newpar heap_okD(4) [OF ok n] n show ?thesis
      unfolding node En by (simp add: expanded_old_fields)
  next
    case new
    with i obtain j where j: "i = length h + j" "j < ?m"
      by (metis add_diff_inverse_nat expanded_length nat_add_left_cancel_less not_le)
    from heap_okD(4) [OF ok n] have "wf_board (board (state (?E ! i)))"
      unfolding j(1) expanded_new_fields(1) [OF j(2)] by (rule move_result_wf)
    then show ?thesis using j n En
      by (simp add: expanded_new_fields)
  qed
qed

section \<open>Backpropagation reaches exactly one child of the root\<close>

lemma heap_ok_credit: "heap_ok h \<Longrightarrow> heap_ok (credit h as sc)"
proof -
  assume ok: "heap_ok h"
  have l: "length (credit h as sc) = length h" by simp
  show ?thesis
    unfolding heap_ok_iff l credit_state credit_children credit_parent
    using ok unfolding heap_ok_iff .
qed

lemma parents_before_credit: "parents_before h \<Longrightarrow> parents_before (credit h as sc)"
proof -
  assume ok: "parents_before h"
  have l: "length (credit h as sc) = length h" by simp
  show ?thesis
    unfolding parents_before_iff l credit_parent
    using ok unfolding parents_before_iff .
qed

lemma chain_cong_below:
  "\<forall>i\<le>n. parent (h' ! i) = parent (h ! i) \<Longrightarrow> chain h' n = chain h n"
proof (induction n rule: less_induct)
  case (less n)
  show ?case
  proof (cases "parent (h ! n)")
    case None
    with less.prems show ?thesis by (simp add: chain_root)
  next
    case (Some p)
    show ?thesis
    proof (cases "p < n")
      case True
      with less.prems have "chain h' p = chain h p" by (intro less.IH) auto
      with True Some less.prems show ?thesis by (simp add: chain_step)
    next
      case False
      with Some less.prems show ?thesis
        by (subst chain.simps, subst (2) chain.simps) simp
    qed
  qed
qed

lemma sum_list_indicator:
  "distinct cs \<Longrightarrow> u \<in> set cs \<Longrightarrow> (\<Sum>c\<leftarrow>cs. if c = u then 1 else 0) = (1::int)"
proof (induction cs)
  case Nil
  then show ?case by simp
next
  case (Cons a cs)
  show ?case
  proof (cases "a = u")
    case True
    with Cons.prems have "u \<notin> set cs" by simp
    then have "(\<Sum>c\<leftarrow>cs. if c = u then 1 else 0) = (0::int)"
      by (induction cs) auto
    with True show ?thesis by simp
  next
    case False
    with Cons show ?thesis by simp
  qed
qed

lemma one_child_on_chain:
  assumes ok: "heap_ok h" and root_node: "root_node < length h"
  shows "v < length h \<Longrightarrow> root_node \<in> set (chain h v) \<Longrightarrow> v \<noteq> root_node \<Longrightarrow>
    (\<Sum>c\<leftarrow>children (h ! root_node). if c \<in> set (chain h v) then 1 else 0) = (1::int)"
proof (induction v rule: less_induct)
  case (less v)
  have "root_node = v \<or> (\<exists>p. parent (h ! v) = Some p \<and> p < v \<and> root_node \<in> set (chain h p))"
    using less.prems(2) chain_parent_step [of h v] by (auto split: option.splits if_splits)
  with less.prems(3) obtain p where p: "parent (h ! v) = Some p" "p < v" "root_node \<in> set (chain h p)"
    by blast
  have c: "chain h v = v # chain h p" using p by (simp add: chain_step)
  have childpar: "parent (h ! c) = Some root_node \<and> root_node < c" if "c \<in> set (children (h ! root_node))" for c
  proof -
    from heap_okD(1) [OF ok root_node that] have "c < length h" "parent (h ! c) = Some root_node" by simp_all
    with heap_okD(3) [OF ok this] show ?thesis by simp
  qed
  show ?case
  proof (cases "p = root_node")
    case True
    have "(if x \<in> set (chain h v) then 1 else 0) = (if x = v then 1 else (0::int))"
      if "x \<in> set (children (h ! root_node))" for x
    proof -
      from childpar [OF that] have "root_node < x" by simp
      with chain_le [of x h root_node] have "x \<notin> set (chain h root_node)" by auto
      then show ?thesis using c True by simp
    qed
    then have "(\<Sum>c\<leftarrow>children (h ! root_node). if c \<in> set (chain h v) then 1 else 0)
        = (\<Sum>c\<leftarrow>children (h ! root_node). if c = v then 1 else (0::int))"
      by (intro arg_cong [of _ _ sum_list] map_cong) simp_all
    also have "\<dots> = 1"
    proof (rule sum_list_indicator)
      show "distinct (children (h ! root_node))" using ok root_node by (rule heap_okD(2))
      show "v \<in> set (children (h ! root_node))"
        using heap_okD(3) [OF ok less.prems(1), of root_node] p(1) True by simp
    qed
    finally show ?thesis .
  next
    case False
    have "(if x \<in> set (chain h v) then 1 else 0) = (if x \<in> set (chain h p) then 1 else (0::int))"
      if "x \<in> set (children (h ! root_node))" for x
    proof -
      from childpar [OF that] p(1) False have "x \<noteq> v" by auto
      then show ?thesis using c by simp
    qed
    then have "(\<Sum>c\<leftarrow>children (h ! root_node). if c \<in> set (chain h v) then 1 else 0)
        = (\<Sum>c\<leftarrow>children (h ! root_node). if c \<in> set (chain h p) then 1 else (0::int))"
      by (intro arg_cong [of _ _ sum_list] map_cong) simp_all
    also have "\<dots> = 1"
      using p less.prems(1) False by (intro less.IH) simp_all
    finally show ?thesis .
  qed
qed

lemma sumv_credit:
  assumes "distinct as" "set as \<subseteq> {..<length h}"
  shows "sumv (credit h as sc) n
    = sumv h n + (\<Sum>c\<leftarrow>children (h ! n). if c \<in> set as then 1 else 0)"
proof -
  have "visits (credit h as sc ! c) = visits (h ! c) + (if c \<in> set as then 1 else 0)" for c
    using assms by (rule credit_visits)
  then show ?thesis
    by (simp add: sumv_def credit_fields sum_list_addf)
qed

lemma sumv_backprop:
  assumes ok: "heap_ok h" and root_node: "root_node < length h" and v: "v < length h"
    and on: "root_node \<in> set (chain h v)" and ne: "v \<noteq> root_node"
  shows "sumv (credit h (chain h v) sc) root_node = sumv h root_node + 1"
proof -
  have "sumv (credit h (chain h v) sc) root_node
    = sumv h root_node + (\<Sum>c\<leftarrow>children (h ! root_node). if c \<in> set (chain h v) then 1 else 0)"
    using chain_distinct chain_below [OF v] by (rule sumv_credit)
  with one_child_on_chain [OF ok root_node v on ne] show ?thesis by simp
qed

section \<open>One round of \<open>mcts\<close>\<close>

text \<open>
  What a round leaves as it was: the nodes that existed keep their state, player and
  parent, and their children once they have some. And what the first expansion of the
  root puts there.
\<close>

definition keeps :: "heap \<Rightarrow> heap \<Rightarrow> bool" where
  "keeps h h' \<longleftrightarrow> length h \<le> length h' \<and>
     (\<forall>i<length h. state (h' ! i) = state (h ! i) \<and> node_player (h' ! i) = node_player (h ! i)
        \<and> parent (h' ! i) = parent (h ! i)
        \<and> (children (h ! i) \<noteq> [] \<longrightarrow> children (h' ! i) = children (h ! i)))"

definition first_expansion :: "heap \<Rightarrow> nat \<Rightarrow> heap \<Rightarrow> bool" where
  "first_expansion h root_node h' \<longleftrightarrow>
     children (h' ! root_node) = [length h ..< length h + length (get_possible_moves (state (h ! root_node)))]
     \<and> (\<forall>j<length (get_possible_moves (state (h ! root_node))).
           state (h' ! (length h + j)) =
             move_result (state (h ! root_node)) (get_possible_moves (state (h ! root_node)) ! j)
               (node_player (h ! root_node)))"

lemma keeps_refl: "keeps h h"
  by (simp add: keeps_def)

lemma keeps_trans: "keeps h h1 \<Longrightarrow> keeps h1 h2 \<Longrightarrow> keeps h h2"
  unfolding keeps_def by (metis le_trans less_le_trans)

lemma keeps_credit: "keeps h (credit h as sc)"
  by (simp add: keeps_def credit_fields)

lemma keeps_expanded:
  assumes "n < length h" "children (h ! n) = []"
  shows "keeps h (expanded h n)"
proof -
  have "state (expanded h n ! i) = state (h ! i) \<and> node_player (expanded h n ! i) = node_player (h ! i)
        \<and> parent (expanded h n ! i) = parent (h ! i)
        \<and> (children (h ! i) \<noteq> [] \<longrightarrow> children (expanded h n ! i) = children (h ! i))"
    if i: "i < length h" for i
    using expanded_old_fields(1-3) [OF i assms(1)] assms(2) expanded_old_fields(6) [OF i assms(1)]
    by auto
  then show ?thesis by (simp add: keeps_def expanded_length)
qed

lemma mcts_iteration_terminal_leaf:
  assumes leaf: "select_leaf ucb h root_node = Some (Inr leaf)"
    and t: "is_terminal (state (h ! leaf))"
    and pb: "parents_before h" and l: "leaf < length h"
  shows "mcts_iteration ucb rng root_node (h, k) = Some (Inr (credit h (chain h leaf) (evaluate (state (h ! leaf))), k))"
  using leaf t backpropagate_chain [OF pb l]
  by (simp add: mcts_iteration_def simulate_terminal)

lemma mcts_iteration_expand_leaf:
  assumes leaf: "select_leaf ucb h root_node = Some (Inr leaf)"
    and nt: "\<not> is_terminal (state (h ! leaf))"
    and ok: "heap_ok h" and l: "leaf < length h" and fresh: "children (h ! leaf) = []"
  shows "\<exists>sc k'. mcts_iteration ucb rng root_node (h, k)
     = Some (Inr (credit (expanded h leaf) (length h # chain h leaf) sc, k'))"
proof -
  let ?E = "expanded h leaf"
  let ?moves = "get_possible_moves (state (h ! leaf))"
  have wf: "wf_board (board (state (h ! leaf)))" using ok l by (rule heap_okD(4))
  have e: "expand h leaf = Inr (?E, children (?E ! leaf))" using l wf by (rule expand_expanded)
  from nt have "?moves \<noteq> []" by (rule not_terminal_moves)
  then have m: "0 < length ?moves" by simp
  then have c: "children (?E ! leaf) = length h # [Suc (length h) ..< length h + length ?moves]"
    using l fresh by (simp add: expanded_node upt_conv_Cons)
  have okE: "heap_ok ?E" using ok l fresh by (rule expanded_heap_ok)
  have LE: "length h < length ?E" using m by (simp add: expanded_length)
  have "wf_board (board (state (?E ! length h)))" using okE LE by (rule heap_okD(4))
  then obtain sc k' where s: "simulate ?E (length h) rng k = Inr (sc, k')"
    using simulate_returns by blast
  have par: "parent (?E ! length h) = Some leaf"
    using expanded_new_fields(2) [OF m, of ] by simp
  have "chain ?E leaf = chain h leaf"
  proof (rule chain_cong_below, intro allI impI)
    fix i assume "i \<le> leaf"
    with l have "i < length h" by simp
    then show "parent (?E ! i) = parent (h ! i)" using l by (rule expanded_old_fields(3))
  qed
  with par l have ch: "chain ?E (length h) = length h # chain h leaf"
    by (simp add: chain_step)
  have "backpropagate ?E (length h) sc = Some (credit ?E (chain ?E (length h)) sc)"
    using heap_ok_parents_before [OF okE] LE by (rule backpropagate_chain)
  with leaf nt e c s ch show ?thesis
    by (intro exI [of _ sc] exI [of _ k']) (simp add: mcts_iteration_def)
qed

lemma sumv_expanded:
  assumes ok: "heap_ok h" and root_node: "root_node < length h" and l: "leaf < length h"
    and fresh: "children (h ! leaf) = []"
  shows "sumv (expanded h leaf) root_node = sumv h root_node"
proof (cases "leaf = root_node")
  case True
  have "visits (expanded h root_node ! c) = 0"
    if "c \<in> set [length h ..< length h + length (get_possible_moves (state (h ! root_node)))]" for c
  proof -
    from that obtain j where "c = length h + j" "j < length (get_possible_moves (state (h ! root_node)))"
      by (metis add_diff_inverse_nat atLeastLessThan_iff nat_add_left_cancel_less not_le set_upt)
    then show ?thesis by (simp add: expanded_new_fields)
  qed
  then have "(\<Sum>c\<leftarrow>[length h ..< length h + length (get_possible_moves (state (h ! root_node)))].
      visits (expanded h root_node ! c)) = (\<Sum>c\<leftarrow>[length h ..< length h + length (get_possible_moves (state (h ! root_node)))]. 0)"
    by (intro arg_cong [of _ _ sum_list] map_cong) simp_all
  then show ?thesis using True fresh root_node
    by (simp add: sumv_def expanded_node)
next
  case False
  have "visits (expanded h leaf ! c) = visits (h ! c)" if "c \<in> set (children (h ! root_node))" for c
  proof -
    from heap_okD(1) [OF ok root_node that] have "c < length h" by simp
    then show ?thesis using l by (rule expanded_old_fields(4))
  qed
  then have "(\<Sum>c\<leftarrow>children (h ! root_node). visits (expanded h leaf ! c))
      = (\<Sum>c\<leftarrow>children (h ! root_node). visits (h ! c))"
    by (intro arg_cong [of _ _ sum_list] map_cong) simp_all
  then show ?thesis using False root_node l
    by (simp add: sumv_def expanded_old)
qed

lemma mcts_iteration_step:
  assumes ok: "heap_ok h" and root_node: "root_node < length h"
    and nt: "\<not> is_terminal (state (h ! root_node))"
  shows "\<exists>h2 k'. mcts_iteration ucb rng root_node (h, k) = Some (Inr (h2, k'))
     \<and> heap_ok h2 \<and> keeps h h2 \<and> sumv h2 root_node = sumv h root_node + 1
     \<and> children (h2 ! root_node) \<noteq> []
     \<and> (children (h ! root_node) = [] \<longrightarrow> first_expansion h root_node h2)"
proof -
  from select_leaf_reaches [OF ok root_node, of ucb]
  obtain leaf where leaf: "select_leaf ucb h root_node = Some (Inr leaf)" "leaf < length h"
    "root_node \<in> set (chain h leaf)" "children (h ! leaf) = [] \<or> is_terminal (state (h ! leaf))"
    "leaf = root_node \<longleftrightarrow> children (h ! root_node) = [] \<or> is_terminal (state (h ! root_node))"
    by blast
  from leaf(5) nt have lr: "leaf = root_node \<longleftrightarrow> children (h ! root_node) = []" by simp
  show ?thesis
  proof (cases "is_terminal (state (h ! leaf))")
    case True
    with nt have ne: "leaf \<noteq> root_node" by auto
    let ?h2 = "credit h (chain h leaf) (evaluate (state (h ! leaf)))"
    have it: "mcts_iteration ucb rng root_node (h, k) = Some (Inr (?h2, k))"
      using leaf(1) True heap_ok_parents_before [OF ok] leaf(2)
      by (rule mcts_iteration_terminal_leaf)
    have "sumv ?h2 root_node = sumv h root_node + 1"
      using ok root_node leaf(2,3) ne by (rule sumv_backprop)
    moreover have "children (?h2 ! root_node) \<noteq> []" using ne lr by (simp add: credit_fields)
    moreover have "children (h ! root_node) \<noteq> []" using ne lr by simp
    ultimately show ?thesis using it heap_ok_credit [OF ok] keeps_credit
      by (intro exI [of _ ?h2] exI [of _ k]) simp
  next
    case False
    with leaf(4) have fresh: "children (h ! leaf) = []" by simp
    let ?E = "expanded h leaf"
    let ?m = "length (get_possible_moves (state (h ! leaf)))"
    from mcts_iteration_expand_leaf [OF leaf(1) False ok leaf(2) fresh, of rng k]
    obtain sc k' where it: "mcts_iteration ucb rng root_node (h, k)
       = Some (Inr (credit ?E (length h # chain h leaf) sc, k'))" by blast
    let ?h2 = "credit ?E (length h # chain h leaf) sc"
    from False have "get_possible_moves (state (h ! leaf)) \<noteq> []" by (rule not_terminal_moves)
    then have m: "0 < ?m" by simp
    have okE: "heap_ok ?E" using ok leaf(2) fresh by (rule expanded_heap_ok)
    have LE: "length h < length ?E" using m by (simp add: expanded_length)
    have rootE: "root_node < length ?E" using root_node LE by simp
    have par: "parent (?E ! length h) = Some leaf"
      using expanded_new_fields(2) [OF m] by simp
    have "chain ?E leaf = chain h leaf"
    proof (rule chain_cong_below, intro allI impI)
      fix i assume "i \<le> leaf"
      with leaf(2) have "i < length h" by simp
      then show "parent (?E ! i) = parent (h ! i)" using leaf(2) by (rule expanded_old_fields(3))
    qed
    with par leaf(2) have ch: "chain ?E (length h) = length h # chain h leaf"
      by (simp add: chain_step)
    have on: "root_node \<in> set (chain ?E (length h))" using leaf(3) ch by simp
    have ne: "length h \<noteq> root_node" using root_node by simp
    have "sumv (credit ?E (chain ?E (length h)) sc) root_node = sumv ?E root_node + 1"
      using okE rootE LE on ne by (rule sumv_backprop)
    with ch sumv_expanded [OF ok root_node leaf(2) fresh]
    have s: "sumv ?h2 root_node = sumv h root_node + 1" by simp
    have k2: "keeps h ?h2"
      using keeps_expanded [OF leaf(2) fresh] keeps_credit by (rule keeps_trans)
    have ok2: "heap_ok ?h2" using okE by (rule heap_ok_credit)
    have cr: "children (?h2 ! root_node) = children (?E ! root_node)" by (rule credit_children)
    have ne2: "children (?h2 ! root_node) \<noteq> []"
    proof (cases "leaf = root_node")
      case True
      with m root_node fresh show ?thesis unfolding cr by (simp add: expanded_node)
    next
      case False
      with lr root_node leaf(2) show ?thesis unfolding cr by (simp add: expanded_old)
    qed
    have fe: "first_expansion h root_node ?h2" if "children (h ! root_node) = []"
    proof -
      from that lr have "leaf = root_node" by simp
      moreover have "state (?h2 ! i) = state (?E ! i)" for i by (rule credit_state)
      ultimately show ?thesis using root_node that cr
        by (simp add: first_expansion_def expanded_node expanded_new_fields del: credit.simps)
    qed
    from it ok2 k2 s ne2 fe show ?thesis
      by (intro exI [of _ ?h2] exI [of _ k']) simp
  qed
qed

section \<open>The loop of \<open>mcts\<close> and its result\<close>

lemma keeps_root:
  assumes "keeps h h'" "root_node < length h"
  shows "root_node < length h'" "state (h' ! root_node) = state (h ! root_node)"
    "node_player (h' ! root_node) = node_player (h ! root_node)"
    "children (h ! root_node) \<noteq> [] \<Longrightarrow> children (h' ! root_node) = children (h ! root_node)"
  using assms by (auto simp: keeps_def)

lemma first_expansion_keeps:
  assumes fe: "first_expansion h root_node h1" and ok: "heap_ok h1" and root_node: "root_node < length h1"
    and ne: "children (h1 ! root_node) \<noteq> []" and k: "keeps h1 h'"
  shows "first_expansion h root_node h'"
proof -
  let ?moves = "get_possible_moves (state (h ! root_node))"
  from fe have c: "children (h1 ! root_node) = [length h ..< length h + length ?moves]"
    and s: "\<forall>j<length ?moves. state (h1 ! (length h + j))
        = move_result (state (h ! root_node)) (?moves ! j) (node_player (h ! root_node))"
    by (simp_all add: first_expansion_def)
  have c': "children (h' ! root_node) = children (h1 ! root_node)" using k root_node ne by (rule keeps_root(4))
  have "state (h' ! (length h + j)) = state (h1 ! (length h + j))" if "j < length ?moves" for j
  proof -
    from that c have "length h + j \<in> set (children (h1 ! root_node))" by simp
    from heap_okD(1) [OF ok root_node this] have "length h + j < length h1" by simp
    with k show ?thesis by (simp add: keeps_def)
  qed
  with c c' s show ?thesis by (simp add: first_expansion_def)
qed

lemma mcts_loop_steps:
  "heap_ok h \<Longrightarrow> root_node < length h \<Longrightarrow> \<not> is_terminal (state (h ! root_node)) \<Longrightarrow>
   \<exists>h' k'. mcts_loop ucb rng root_node i (h, k) = Some (Inr (h', k'))
     \<and> heap_ok h' \<and> keeps h h' \<and> sumv h' root_node = sumv h root_node + int i
     \<and> (0 < i \<longrightarrow> children (h' ! root_node) \<noteq> [])
     \<and> (0 < i \<and> children (h ! root_node) = [] \<longrightarrow> first_expansion h root_node h')"
proof (induction i arbitrary: h k)
  case 0
  then show ?case by (simp add: keeps_refl)
next
  case (Suc i)
  from mcts_iteration_step [OF Suc.prems, of ucb rng k]
  obtain h1 k1 where 1: "mcts_iteration ucb rng root_node (h, k) = Some (Inr (h1, k1))"
    "heap_ok h1" "keeps h h1" "sumv h1 root_node = sumv h root_node + 1" "children (h1 ! root_node) \<noteq> []"
    "children (h ! root_node) = [] \<longrightarrow> first_expansion h root_node h1" by blast
  have r1: "root_node < length h1" using 1(3) Suc.prems(2) by (rule keeps_root(1))
  have "state (h1 ! root_node) = state (h ! root_node)" using 1(3) Suc.prems(2) by (rule keeps_root(2))
  with Suc.prems(3) have nt1: "\<not> is_terminal (state (h1 ! root_node))" by simp
  from Suc.IH [OF 1(2) r1 nt1, of k1]
  obtain h' k' where 2: "mcts_loop ucb rng root_node i (h1, k1) = Some (Inr (h', k'))"
    "heap_ok h'" "keeps h1 h'" "sumv h' root_node = sumv h1 root_node + int i" by blast
  have c: "children (h' ! root_node) = children (h1 ! root_node)" using 2(3) r1 1(5) by (rule keeps_root(4))
  have fe: "first_expansion h root_node h'" if "children (h ! root_node) = []"
    using that 1(6) 1(2) r1 1(5) 2(3) first_expansion_keeps by blast
  have "keeps h h'" using 1(3) 2(3) by (rule keeps_trans)
  with 1(1,4,5) 2(1,2,4) c fe show ?case
    by (intro exI [of _ h'] exI [of _ k']) simp
qed

lemma mcts_returns:
  assumes ok: "heap_ok h" and root_node: "root_node < length h"
    and nt: "\<not> is_terminal (state (h ! root_node))"
    and some: "0 < iterations \<or> children (h ! root_node) \<noteq> []"
  shows "\<exists>h' k' best i. mcts ucb rng (h, k) root_node iterations = Some (Inr ((h', k'), best))
     \<and> heap_ok h' \<and> keeps h h' \<and> sumv h' root_node = sumv h root_node + int (nat iterations)
     \<and> (children (h ! root_node) = [] \<longrightarrow> first_expansion h root_node h')
     \<and> i < length (children (h' ! root_node)) \<and> children (h' ! root_node) ! i = best
     \<and> (\<forall>j<i. visits (h' ! (children (h' ! root_node) ! j)) < visits (h' ! best))
     \<and> (\<forall>c \<in> set (children (h' ! root_node)). visits (h' ! c) \<le> visits (h' ! best))"
proof -
  from mcts_loop_steps [OF ok root_node nt, of ucb rng "nat iterations" k]
  obtain h' k' where l: "mcts_loop ucb rng root_node (nat iterations) (h, k) = Some (Inr (h', k'))"
    "heap_ok h'" "keeps h h'" "sumv h' root_node = sumv h root_node + int (nat iterations)"
    "0 < nat iterations \<longrightarrow> children (h' ! root_node) \<noteq> []"
    "0 < nat iterations \<and> children (h ! root_node) = [] \<longrightarrow> first_expansion h root_node h'"
    by (elim exE conjE) (rule that)
  have ne: "children (h' ! root_node) \<noteq> []"
  proof (cases "0 < iterations")
    case True
    with l(5) show ?thesis by simp
  next
    case False
    with some have "children (h ! root_node) \<noteq> []" by simp
    with keeps_root(4) [OF l(3) root_node] show ?thesis by simp
  qed
  have fe: "first_expansion h root_node h'" if "children (h ! root_node) = []"
    using that some l(6) by auto
  from py_max_first [OF ne, of "\<lambda>node. visits (h' ! node)"]
  obtain best i where b: "py_max (\<lambda>node. visits (h' ! node)) (children (h' ! root_node)) = Inr best"
    "i < length (children (h' ! root_node))" "children (h' ! root_node) ! i = best"
    "\<forall>j<i. visits (h' ! (children (h' ! root_node) ! j)) < visits (h' ! best)"
    "\<forall>c \<in> set (children (h' ! root_node)). visits (h' ! c) \<le> visits (h' ! best)" by blast
  from l(1) b(1) have "mcts ucb rng (h, k) root_node iterations = Some (Inr ((h', k'), best))"
    by (simp add: mcts_def)
  with l(2,3,4) fe b(2-5) show ?thesis
    by (intro exI [of _ h'] exI [of _ k'] exI [of _ best] exI [of _ i]) simp
qed

lemma mcts_loop_terminal_root:
  "parents_before h \<Longrightarrow> root_node < length h \<Longrightarrow> is_terminal (state (h ! root_node)) \<Longrightarrow>
   children (h ! root_node) = [] \<Longrightarrow>
   \<exists>h'. mcts_loop ucb rng root_node i (h, k) = Some (Inr (h', k))
     \<and> length h' = length h \<and> children (h' ! root_node) = []
     \<and> visits (h' ! root_node) = visits (h ! root_node) + int i"
proof (induction i arbitrary: h)
  case 0
  then show ?case by simp
next
  case (Suc i)
  let ?h1 = "credit h (chain h root_node) (evaluate (state (h ! root_node)))"
  have "select_leaf ucb h root_node = Some (Inr root_node)"
    using Suc.prems(4) by (subst select_leaf.simps) simp
  from mcts_iteration_terminal_leaf [OF this Suc.prems(3,1,2), of rng k]
  have it: "mcts_iteration ucb rng root_node (h, k) = Some (Inr (?h1, k))" .
  have pb: "parents_before ?h1" using Suc.prems(1) by (rule parents_before_credit)
  have r: "root_node < length ?h1" using Suc.prems(2) by simp
  have t: "is_terminal (state (?h1 ! root_node))" using Suc.prems(3) by (simp only: credit_state)
  have c: "children (?h1 ! root_node) = []" using Suc.prems(4) by (simp only: credit_children)
  have v: "visits (?h1 ! root_node) = visits (h ! root_node) + 1"
    using credit_visits [OF chain_distinct chain_below [OF Suc.prems(2)], of _ root_node] chain_hd [of root_node h]
    by simp
  from Suc.IH [OF pb r t c] obtain h' where
    "mcts_loop ucb rng root_node i (?h1, k) = Some (Inr (h', k))" "length h' = length ?h1"
    "children (h' ! root_node) = []" "visits (h' ! root_node) = visits (?h1 ! root_node) + int i" by blast
  with it v show ?case by (intro exI [of _ h']) simp
qed

section \<open>The claims about \<open>mcts\<close>: C3, C8 and C9\<close>

text \<open>
  Claim C3 as stated fails for a root that was searched before: the visits of its
  children are not reset, so they add up. Two calls \<open>mcts(root, 1)\<close> in a row on the
  root of \<open>reset_tree\<close>: after the second, which runs 1 round on a non-terminal root,
  the children's visits sum to 2.
\<close>

theorem mcts_second_run_counterexample:
  "\<exists>h1 k1 b1 h2 k2 b2.
     mcts (\<lambda>t s v. 0::int) (\<lambda>i. 0) (fresh_tree, 0) 0 1 = Some (Inr ((h1, k1), b1))
   \<and> \<not> is_terminal (state (h1 ! 0))
   \<and> mcts (\<lambda>t s v. 0::int) (\<lambda>i. 0) (h1, k1) 0 1 = Some (Inr ((h2, k2), b2))
   \<and> sumv h2 0 = 2"
proof -
  let ?ucb = "\<lambda>t s v. 0::int" and ?rng = "\<lambda>i::nat. 0::nat"
  have ok: "heap_ok fresh_tree" by code_simp
  have r: "0 < length fresh_tree" by code_simp
  have nt: "\<not> is_terminal (state (fresh_tree ! 0))" by code_simp
  have s0: "sumv fresh_tree 0 = 0" by code_simp
  have one: "0 < (1::int) \<or> children (h ! 0) \<noteq> []" for h :: heap by simp
  from mcts_returns [OF ok r nt one, of ?ucb ?rng 0]
  obtain h1 k1 b1 where 1: "mcts ?ucb ?rng (fresh_tree, 0) 0 1 = Some (Inr ((h1, k1), b1))"
    "heap_ok h1" "keeps fresh_tree h1" "sumv h1 0 = sumv fresh_tree 0 + int (nat 1)"
    by (elim exE conjE) (rule that, simp)
  have r1: "0 < length h1" using 1(3) r by (rule keeps_root(1))
  have "state (h1 ! 0) = state (fresh_tree ! 0)" using 1(3) r by (rule keeps_root(2))
  with nt have nt1: "\<not> is_terminal (state (h1 ! 0))" by simp
  from mcts_returns [OF 1(2) r1 nt1 one, of ?ucb ?rng k1]
  obtain h2 k2 b2 where 2: "mcts ?ucb ?rng (h1, k1) 0 1 = Some (Inr ((h2, k2), b2))"
    "sumv h2 0 = sumv h1 0 + int (nat 1)"
    by (elim exE conjE) (rule that, simp)
  from 1(4) 2(2) s0 have "sumv h2 0 = 2" by simp
  with 1(1) nt1 2(1) show ?thesis by blast
qed

text \<open>
  Claim C3, amended: for a non-terminal root of a well-formed tree and \<open>N \<ge> 0\<close> rounds
  (\<open>N \<ge> 1\<close> when the root has no children yet), whatever the random source and the
  selection scores, \<open>mcts(root, N)\<close> returns and the sum of the visits of the root's
  children is the sum before the call plus \<open>N\<close>; so it is \<open>N\<close> when the children had no
  visits, as for a root without children.
\<close>

theorem mcts_visit_sum:
  assumes "heap_ok h" "root_node < length h" "\<not> is_terminal (state (h ! root_node))"
    and "0 \<le> iterations" "0 < iterations \<or> children (h ! root_node) \<noteq> []"
  shows "\<exists>h' k' best. mcts ucb rng (h, k) root_node iterations = Some (Inr ((h', k'), best))
     \<and> sumv h' root_node = sumv h root_node + iterations"
proof -
  from mcts_returns [OF assms(1,2,3,5), of ucb rng k]
  obtain h' k' best where "mcts ucb rng (h, k) root_node iterations = Some (Inr ((h', k'), best))"
    "sumv h' root_node = sumv h root_node + int (nat iterations)"
    by (elim exE conjE) (rule that)
  with assms(4) show ?thesis by (intro exI [of _ h'] exI [of _ k'] exI [of _ best]) simp
qed

theorem mcts_visit_sum_witness:
  "heap_ok fresh_tree \<and> 0 < length fresh_tree \<and> \<not> is_terminal (state (fresh_tree ! 0))
   \<and> (0::int) \<le> 3 \<and> ((0::int) < 3 \<or> children (fresh_tree ! 0) \<noteq> [])
   \<and> sumv fresh_tree 0 = 0
   \<and> (\<exists>h' k' best. mcts (\<lambda>t s v. s - v) (\<lambda>i. i) (fresh_tree, 0) 0 3 = Some (Inr ((h', k'), best))
     \<and> sumv h' 0 = sumv fresh_tree 0 + 3)"
proof -
  have ok: "heap_ok fresh_tree" by code_simp
  have r: "0 < length fresh_tree" by code_simp
  have nt: "\<not> is_terminal (state (fresh_tree ! 0))" by code_simp
  have s0: "sumv fresh_tree 0 = 0" by code_simp
  have i: "(0::int) \<le> 3" "(0::int) < 3 \<or> children (fresh_tree ! 0) \<noteq> []" by simp_all
  from mcts_visit_sum [OF ok r nt i, of "\<lambda>t s v. s - v" "\<lambda>i. i" 0] ok r nt s0 i
  show ?thesis by blast
qed

text \<open>
  Claim C8: for a non-terminal root of a well-formed tree and \<open>N \<ge> 1\<close>, \<open>mcts(root, N)\<close>
  returns a child of the root whose visit count no child exceeds, and the first such in
  the order of the children. When the root had no children before the call, as the
  empty-board root, the returned child is the one of a move of
  \<open>get_possible_moves\<close>, a column in \<open>0 .. 6\<close>, and holds the state \<open>make_move\<close> gives for
  that column.
\<close>

theorem mcts_most_visited:
  assumes "heap_ok h" "root_node < length h" "\<not> is_terminal (state (h ! root_node))"
    and "1 \<le> iterations"
  shows "\<exists>h' k' best i. mcts ucb rng (h, k) root_node iterations = Some (Inr ((h', k'), best))
     \<and> i < length (children (h' ! root_node)) \<and> children (h' ! root_node) ! i = best
     \<and> (\<forall>c \<in> set (children (h' ! root_node)). visits (h' ! c) \<le> visits (h' ! best))
     \<and> (\<forall>j<i. visits (h' ! (children (h' ! root_node) ! j)) < visits (h' ! best))
     \<and> (children (h ! root_node) = [] \<longrightarrow>
          i < length (get_possible_moves (state (h ! root_node)))
        \<and> get_possible_moves (state (h ! root_node)) ! i < 7
        \<and> make_move (state (h ! root_node)) (int (get_possible_moves (state (h ! root_node)) ! i))
              (node_player (h ! root_node)) = Inr (state (h' ! best)))"
proof -
  let ?moves = "get_possible_moves (state (h ! root_node))"
  from assms(4) have "0 < iterations \<or> children (h ! root_node) \<noteq> []" by simp
  from mcts_returns [OF assms(1,2,3) this, of ucb rng k]
  obtain h' k' best i where m: "mcts ucb rng (h, k) root_node iterations = Some (Inr ((h', k'), best))"
    "children (h ! root_node) = [] \<longrightarrow> first_expansion h root_node h'"
    "i < length (children (h' ! root_node))" "children (h' ! root_node) ! i = best"
    "\<forall>j<i. visits (h' ! (children (h' ! root_node) ! j)) < visits (h' ! best)"
    "\<forall>c \<in> set (children (h' ! root_node)). visits (h' ! c) \<le> visits (h' ! best)"
    by (elim exE conjE) (rule that)
  have wf: "wf_board (board (state (h ! root_node)))" using assms(1,2) by (rule heap_okD(4))
  have fe: "i < length ?moves \<and> ?moves ! i < 7
        \<and> make_move (state (h ! root_node)) (int (?moves ! i)) (node_player (h ! root_node))
            = Inr (state (h' ! best))" if "children (h ! root_node) = []"
  proof -
    from that m(2) have c: "children (h' ! root_node) = [length h ..< length h + length ?moves]"
      and s: "\<forall>j<length ?moves. state (h' ! (length h + j))
          = move_result (state (h ! root_node)) (?moves ! j) (node_player (h ! root_node))"
      by (simp_all add: first_expansion_def)
    from m(3) c have i: "i < length ?moves" by simp
    with m(4) c have b: "best = length h + i" by simp
    from i have "?moves ! i \<in> set ?moves" by (rule nth_mem)
    then have r: "?moves ! i < 7" by (rule possible_moves_range)
    from make_move_result [OF wf r] s i b r show ?thesis by simp
  qed
  from m(1,3,4,5,6) fe show ?thesis
    by (intro exI [of _ h'] exI [of _ k'] exI [of _ best] exI [of _ i]) simp
qed

theorem mcts_most_visited_witness:
  "heap_ok fresh_tree \<and> 0 < length fresh_tree \<and> \<not> is_terminal (state (fresh_tree ! 0))
   \<and> (1::int) \<le> 1000 \<and> children (fresh_tree ! 0) = []
   \<and> get_possible_moves (state (fresh_tree ! 0)) = [0, 1, 2, 3, 4, 5, 6]
   \<and> (\<exists>h' k' best i. mcts (\<lambda>t s v. s - v) (\<lambda>i. i) (fresh_tree, 0) 0 1000 = Some (Inr ((h', k'), best))
     \<and> i < length (children (h' ! 0)) \<and> children (h' ! 0) ! i = best
     \<and> (\<forall>c \<in> set (children (h' ! 0)). visits (h' ! c) \<le> visits (h' ! best))
     \<and> (\<forall>j<i. visits (h' ! (children (h' ! 0) ! j)) < visits (h' ! best))
     \<and> i < length (get_possible_moves (state (fresh_tree ! 0)))
     \<and> get_possible_moves (state (fresh_tree ! 0)) ! i < 7
     \<and> make_move (state (fresh_tree ! 0)) (int (get_possible_moves (state (fresh_tree ! 0)) ! i))
              (node_player (fresh_tree ! 0)) = Inr (state (h' ! best)))"
proof -
  have ok: "heap_ok fresh_tree" by code_simp
  have r: "0 < length fresh_tree" by code_simp
  have nt: "\<not> is_terminal (state (fresh_tree ! 0))" by code_simp
  have c: "children (fresh_tree ! 0) = []" by code_simp
  have mv: "get_possible_moves (state (fresh_tree ! 0)) = [0, 1, 2, 3, 4, 5, 6]" by code_simp
  have i: "(1::int) \<le> 1000" by simp
  from mcts_most_visited [OF ok r nt i, of "\<lambda>t s v. s - v" "\<lambda>i. i" 0] c
  have "\<exists>h' k' best i. mcts (\<lambda>t s v. s - v) (\<lambda>i. i) (fresh_tree, 0) 0 1000 = Some (Inr ((h', k'), best))
     \<and> i < length (children (h' ! 0)) \<and> children (h' ! 0) ! i = best
     \<and> (\<forall>c \<in> set (children (h' ! 0)). visits (h' ! c) \<le> visits (h' ! best))
     \<and> (\<forall>j<i. visits (h' ! (children (h' ! 0) ! j)) < visits (h' ! best))
     \<and> i < length (get_possible_moves (state (fresh_tree ! 0)))
     \<and> get_possible_moves (state (fresh_tree ! 0)) ! i < 7
     \<and> make_move (state (fresh_tree ! 0)) (int (get_possible_moves (state (fresh_tree ! 0)) ! i))
              (node_player (fresh_tree ! 0)) = Inr (state (h' ! best))"
    by simp
  with ok r nt c mv i show ?thesis by blast
qed

text \<open>
  Claim C9: for a root whose state is terminal (and which, as every terminal node the
  program makes, has no children), \<open>mcts(root, N)\<close> raises \<open>ValueError\<close> for every \<open>N\<close>:
  the loop runs through without allocating a node or giving the root a child, and
  \<open>max\<close> is called on an empty list.
\<close>

theorem mcts_terminal_root:
  assumes "parents_before h" "root_node < length h" "is_terminal (state (h ! root_node))"
    and "children (h ! root_node) = []"
  shows "mcts ucb rng (h, k) root_node iterations = Some (Inl ValueError)
     \<and> (\<exists>h'. mcts_loop ucb rng root_node (nat iterations) (h, k) = Some (Inr (h', k))
          \<and> length h' = length h \<and> children (h' ! root_node) = [])"
proof -
  from mcts_loop_terminal_root [OF assms, of ucb rng "nat iterations" k]
  obtain h' where l: "mcts_loop ucb rng root_node (nat iterations) (h, k) = Some (Inr (h', k))"
    "length h' = length h" "children (h' ! root_node) = []" by blast
  then have "mcts ucb rng (h, k) root_node iterations = Some (Inl ValueError)"
    by (simp add: mcts_def py_max_empty)
  with l show ?thesis by blast
qed

theorem mcts_terminal_root_witness:
  "parents_before won_tree \<and> 0 < length won_tree \<and> is_terminal (state (won_tree ! 0))
   \<and> children (won_tree ! 0) = []
   \<and> mcts (\<lambda>t s v. s - v) (\<lambda>i. i) (won_tree, 0) 0 1000 = Some (Inl ValueError)
   \<and> (\<exists>h'. mcts_loop (\<lambda>t s v. s - v) (\<lambda>i. i) 0 (nat 1000) (won_tree, 0) = Some (Inr (h', 0))
          \<and> length h' = length won_tree \<and> children (h' ! 0) = [])"
proof -
  have p: "parents_before won_tree" by code_simp
  have r: "0 < length won_tree" by code_simp
  have t: "is_terminal (state (won_tree ! 0))" by code_simp
  have c: "children (won_tree ! 0) = []" by code_simp
  from mcts_terminal_root [OF p r t c, of "\<lambda>t s v. s - v" "\<lambda>i. i" 0 1000] p r t c
  show ?thesis by blast
qed

section \<open>The selection score: claim C2\<close>






end
